theory Spec2Isabelle
  imports Main "HOL-Library.Word"
begin

unbundle bit_operations_syntax

section \<open>Machine model\<close>

text \<open>
  The two allocators of \<^verbatim>\<open>lab4\<close> are C code over raw memory. Pointers, \<^verbatim>\<open>size_t\<close> and
  \<^verbatim>\<open>uintptr_t\<close> are 64-bit words (LP64, the ABI the driver's \<^verbatim>\<open>mmap\<close>/\<^verbatim>\<open>dlopen\<close> harness
  runs on); all arithmetic on them wraps, and pointer comparison is unsigned comparison.
  \<^verbatim>\<open>NULL\<close> is the word 0.  Memory is an explicit store, split by field as the C code
  accesses it: one store per struct member, indexed by the address of the struct.
\<close>

type_synonym addr = "64 word"
type_synonym size_t = "64 word"

text \<open>\<^verbatim>\<open>sizeof\<close> and \<^verbatim>\<open>alignof\<close> under LP64 (x86-64 System V).\<close>

definition sizeof_block_header :: size_t where
  "sizeof_block_header = 24"

definition alignof_block_header :: size_t where
  "alignof_block_header = 8"

definition alignof_max_align_t :: size_t where
  "alignof_max_align_t = 16"

definition sizeof_fl_Allocator :: size_t where
  "sizeof_fl_Allocator = 24"

definition sizeof_mk_Allocator :: size_t where
  "sizeof_mk_Allocator = 536"

definition sizeof_uint16_t :: size_t where
  "sizeof_uint16_t = 2"

text \<open>\<^verbatim>\<open>static inline size_t align_up(size_t x, size_t a) { return (x + (a-1)) & ~(a-1); }\<close>\<close>

definition align_up :: "size_t \<Rightarrow> size_t \<Rightarrow> size_t" where
  "align_up x a = (x + (a - 1)) AND NOT (a - 1)"


section \<open>Free-list allocator (\<^verbatim>\<open>alloc_free_list/free_list.c\<close>)\<close>

text \<open>
  The state is the \<^verbatim>\<open>Allocator\<close> descriptor (\<^verbatim>\<open>base\<close>, \<^verbatim>\<open>size\<close>, \<^verbatim>\<open>free_list\<close>) together with
  the three members of every \<^verbatim>\<open>block_header\<close> in memory: \<open>blk_size s p\<close> is \<^verbatim>\<open>p->size\<close>,
  \<open>blk_next s p\<close> is \<^verbatim>\<open>p->next\<close> and \<open>blk_free s p\<close> is \<^verbatim>\<open>p->free\<close> for a header at address \<open>p\<close>.
\<close>

record fl_state =
  fl_base :: addr
  fl_size :: size_t
  free_list :: addr
  blk_size :: "addr \<Rightarrow> size_t"
  blk_next :: "addr \<Rightarrow> addr"
  blk_free :: "addr \<Rightarrow> int"

text \<open>
  A \<^verbatim>\<open>block_header **pp\<close> points either at the descriptor's \<^verbatim>\<open>free_list\<close> member or at the
  \<^verbatim>\<open>next\<close> member of a header.
\<close>

datatype fl_link = Head | Next addr

fun fl_store :: "fl_state \<Rightarrow> fl_link \<Rightarrow> addr \<Rightarrow> fl_state" where
  "fl_store s Head v = s\<lparr>free_list := v\<rparr>"
| "fl_store s (Next q) v = s\<lparr>blk_next := (blk_next s)(q := v)\<rparr>"

text \<open>
  \<^verbatim>\<open>allocator_create\<close>: the descriptor sits at \<^verbatim>\<open>memory\<close>, one free block covers the rest.
  The first argument is the memory as it was before the call. The C function returns
  \<^verbatim>\<open>memory\<close> itself and never fails.
\<close>

definition fl_allocator_create :: "fl_state \<Rightarrow> addr \<Rightarrow> size_t \<Rightarrow> fl_state" where
  "fl_allocator_create m memory sz =
     (let off = align_up sizeof_fl_Allocator alignof_block_header;
          b = memory + off;
          usable = sz - off
      in m\<lparr>fl_base := memory, fl_size := sz,
            blk_size := (blk_size m)(b := usable),
            blk_next := (blk_next m)(b := 0),
            blk_free := (blk_free m)(b := 1),
            free_list := b\<rparr>)"

definition split_block :: "fl_state \<Rightarrow> addr \<Rightarrow> size_t \<Rightarrow> fl_state" where
  "split_block s b need =
     (if need + sizeof_block_header + 16 \<le> blk_size s b then
        let nb = b + need;
            s1 = s\<lparr>blk_size := (blk_size s)(nb := blk_size s b - need)\<rparr>;
            s2 = s1\<lparr>blk_next := (blk_next s1)(nb := blk_next s1 b)\<rparr>;
            s3 = s2\<lparr>blk_free := (blk_free s2)(nb := 1)\<rparr>;
            s4 = s3\<lparr>blk_size := (blk_size s3)(b := need)\<rparr>
        in s4\<lparr>blk_next := (blk_next s4)(b := nb)\<rparr>
      else s)"

text \<open>
  The body of the scan of \<^verbatim>\<open>allocator_alloc\<close> once a block \<open>p\<close> fits:
  \<^verbatim>\<open>split_block(p, need); p->free = 0; *pp = p->next; p->next = NULL; return p + sizeof(block_header);\<close>
\<close>

definition fl_take :: "fl_state \<Rightarrow> size_t \<Rightarrow> fl_link \<Rightarrow> addr \<Rightarrow> addr \<times> fl_state" where
  "fl_take s need pp p =
     (let s1 = split_block s p need;
          s2 = s1\<lparr>blk_free := (blk_free s1)(p := 0)\<rparr>;
          s3 = fl_store s2 pp (blk_next s2 p);
          s4 = s3\<lparr>blk_next := (blk_next s3)(p := 0)\<rparr>
      in (p + sizeof_block_header, s4))"

text \<open>
  The scan itself. It follows \<^verbatim>\<open>next\<close> pointers and does not return on a cyclic chain,
  so it is a partial function: \<open>None\<close> is non-termination. The result is the returned
  pointer (0 is \<^verbatim>\<open>NULL\<close>) and the memory after the call.
\<close>

partial_function (option) fl_alloc_loop ::
  "fl_state \<Rightarrow> size_t \<Rightarrow> fl_link \<Rightarrow> addr \<Rightarrow> (addr \<times> fl_state) option" where
  "fl_alloc_loop s need pp p =
     (if p = 0 then Some (0, s)
      else if blk_free s p \<noteq> 0 \<and> need \<le> blk_size s p then Some (fl_take s need pp p)
      else fl_alloc_loop s need (Next p) (blk_next s p))"

declare fl_alloc_loop.simps [code]

definition fl_allocator_alloc :: "fl_state \<Rightarrow> size_t \<Rightarrow> (addr \<times> fl_state) option" where
  "fl_allocator_alloc s sz =
     (if sz = 0 then Some (0, s)
      else let need = align_up sz alignof_max_align_t + sizeof_block_header
           in fl_alloc_loop s need Head (free_list s))"

definition ptr_to_block :: "addr \<Rightarrow> addr" where
  "ptr_to_block ptr = ptr - sizeof_block_header"

text \<open>The first loop of \<^verbatim>\<open>allocator_free\<close>: the insertion point in address order.\<close>

partial_function (option) fl_find_pos ::
  "fl_state \<Rightarrow> addr \<Rightarrow> fl_link \<Rightarrow> addr \<Rightarrow> (fl_link \<times> addr) option" where
  "fl_find_pos s b pp p =
     (if p \<noteq> 0 \<and> p < b then fl_find_pos s b (Next p) (blk_next s p)
      else Some (pp, p))"

declare fl_find_pos.simps [code]

text \<open>
  Both coalescing steps of \<^verbatim>\<open>allocator_free\<close> end in the same two assignments, by which
  block \<open>p\<close> absorbs the block \<open>b\<close> that follows it:
  \<^verbatim>\<open>p->size += b->size; p->next = b->next;\<close>
\<close>

definition fl_absorb :: "fl_state \<Rightarrow> addr \<Rightarrow> addr \<Rightarrow> fl_state" where
  "fl_absorb s p b =
     (let s1 = s\<lparr>blk_size := (blk_size s)(p := blk_size s p + blk_size s b)\<rparr>
      in s1\<lparr>blk_next := (blk_next s1)(p := blk_next s1 b)\<rparr>)"

text \<open>
  \<^verbatim>\<open>if (b->next && b->next->free) { end = b + b->size; if (end == b->next) { b->size += b->next->size; b->next = b->next->next; } }\<close>
\<close>

definition fl_merge_next :: "fl_state \<Rightarrow> addr \<Rightarrow> fl_state" where
  "fl_merge_next s b =
     (if blk_next s b \<noteq> 0 \<and> blk_free s (blk_next s b) \<noteq> 0 then
        if b + blk_size s b = blk_next s b then fl_absorb s b (blk_next s b)
        else s
      else s)"

text \<open>
  The last loop of \<^verbatim>\<open>allocator_free\<close>:
  \<^verbatim>\<open>while (p && p != b) { if (p->next == b) { end = p + p->size; if (end == b) { p->size += b->size; p->next = b->next; break; } } p = p->next; }\<close>
\<close>

partial_function (option) fl_merge_prev :: "fl_state \<Rightarrow> addr \<Rightarrow> addr \<Rightarrow> fl_state option" where
  "fl_merge_prev s b p =
     (if p \<noteq> 0 \<and> p \<noteq> b then
        if blk_next s p = b \<and> p + blk_size s p = b then Some (fl_absorb s p b)
        else fl_merge_prev s b (blk_next s p)
      else Some s)"

declare fl_merge_prev.simps [code]

definition fl_allocator_free :: "fl_state \<Rightarrow> addr \<Rightarrow> fl_state option" where
  "fl_allocator_free s ptr =
     (if ptr = 0 then Some s
      else
        let b = ptr_to_block ptr;
            s1 = s\<lparr>blk_free := (blk_free s)(b := 1)\<rparr>
        in case fl_find_pos s1 b Head (free_list s1) of
             None \<Rightarrow> None
           | Some (pp, p) \<Rightarrow>
               let s2 = s1\<lparr>blk_next := (blk_next s1)(b := p)\<rparr>;
                   s3 = fl_store s2 pp b;
                   s4 = fl_merge_next s3 b
               in fl_merge_prev s4 b (free_list s4))"

section \<open>Buddy allocator (\<^verbatim>\<open>alloc_mc_kusick/mc_kusick.c\<close>)\<close>

text \<open>
  The state is the descriptor (\<^verbatim>\<open>base\<close>, \<^verbatim>\<open>size\<close>, \<^verbatim>\<open>min_order\<close>, \<^verbatim>\<open>max_order\<close>, the array
  \<^verbatim>\<open>free_lists[64]\<close>) and two stores: \<open>node_next s p\<close> is \<^verbatim>\<open>((FreeNode* )p)->next\<close> and
  \<open>hdr s p\<close> is the \<^verbatim>\<open>uint16_t\<close> order tag \<^verbatim>\<open>*(uint16_t* )p\<close>. Orders are small non-negative
  \<^verbatim>\<open>int\<close>s and are modelled as naturals; the array is indexed by them (an index of 64 or
  more is outside the C array).
\<close>

record mk_state =
  mk_base :: addr
  mk_size :: size_t
  min_order :: nat
  max_order :: nat
  free_lists :: "nat \<Rightarrow> addr"
  node_next :: "addr \<Rightarrow> addr"
  hdr :: "addr \<Rightarrow> 16 word"

text \<open>\<^verbatim>\<open>static inline size_t pow2(int k){ return (size_t)1 << k; }\<close>\<close>

definition pow2 :: "nat \<Rightarrow> size_t" where
  "pow2 k = push_bit k 1"

text \<open>
  \<^verbatim>\<open>ilog2_ceil\<close>: \<^verbatim>\<open>while (v < x) { v <<= 1; k++; }\<close>. Once \<open>v\<close> has been shifted to 0 the loop
  never ends, so the function is partial (\<open>None\<close> is non-termination).
\<close>

partial_function (option) ilog2_ceil_loop :: "size_t \<Rightarrow> size_t \<Rightarrow> nat \<Rightarrow> nat option" where
  "ilog2_ceil_loop x v k =
     (if v < x then ilog2_ceil_loop x (push_bit 1 v) (k + 1) else Some k)"

declare ilog2_ceil_loop.simps [code]

definition ilog2_ceil :: "size_t \<Rightarrow> nat option" where
  "ilog2_ceil x = ilog2_ceil_loop x 1 0"

text \<open>
  \<^verbatim>\<open>A->min_order = 4; if (pow2(A->min_order) < sizeof(uint16_t) + 8) A->min_order = ilog2_ceil(...)\<close>
\<close>

definition create_min_order :: "nat option" where
  "create_min_order =
     (if pow2 4 < sizeof_uint16_t + 8 then ilog2_ceil (sizeof_uint16_t + 8) else Some 4)"

text \<open>\<^verbatim>\<open>while (A->max_order < 20 && pow2(A->max_order+1) <= usable) A->max_order++;\<close>\<close>

function create_max_order :: "size_t \<Rightarrow> nat \<Rightarrow> nat" where
  "create_max_order usable m =
     (if m < 20 \<and> pow2 (m + 1) \<le> usable then create_max_order usable (m + 1) else m)"
  by pat_completeness auto
termination
  by (relation "measure (\<lambda>(usable, m). 20 - m)") auto

declare create_max_order.simps [simp del]

text \<open>A \<^verbatim>\<open>FreeNode **\<close> points at an entry of \<^verbatim>\<open>free_lists\<close> or at the \<^verbatim>\<open>next\<close> member of a node.\<close>

datatype mk_link = Slot nat | NodeNext addr

fun mk_load :: "mk_state \<Rightarrow> mk_link \<Rightarrow> addr" where
  "mk_load s (Slot k) = free_lists s k"
| "mk_load s (NodeNext q) = node_next s q"

fun mk_store :: "mk_state \<Rightarrow> mk_link \<Rightarrow> addr \<Rightarrow> mk_state" where
  "mk_store s (Slot k) v = s\<lparr>free_lists := (free_lists s)(k := v)\<rparr>"
| "mk_store s (NodeNext q) v = s\<lparr>node_next := (node_next s)(q := v)\<rparr>"

text \<open>\<^verbatim>\<open>list_push(head, n){ n->next = *head; *head = n; }\<close>\<close>

definition list_push :: "mk_state \<Rightarrow> mk_link \<Rightarrow> addr \<Rightarrow> mk_state" where
  "list_push s head n =
     (let s1 = s\<lparr>node_next := (node_next s)(n := mk_load s head)\<rparr>
      in mk_store s1 head n)"

text \<open>\<^verbatim>\<open>list_pop(head){ FreeNode *n = *head; if(n) *head = n->next; return n; }\<close>\<close>

definition list_pop :: "mk_state \<Rightarrow> mk_link \<Rightarrow> addr \<times> mk_state" where
  "list_pop s head =
     (let n = mk_load s head
      in (n, if n \<noteq> 0 then mk_store s head (node_next s n) else s))"

text \<open>\<^verbatim>\<open>list_remove\<close>: unlink the first node equal to \<open>n\<close>; 1 if found, else 0.\<close>

partial_function (option) list_remove_loop ::
  "mk_state \<Rightarrow> mk_link \<Rightarrow> addr \<Rightarrow> addr \<Rightarrow> (int \<times> mk_state) option" where
  "list_remove_loop s pp p n =
     (if p \<noteq> 0 then
        if p = n then Some (1, mk_store s pp (node_next s p))
        else list_remove_loop s (NodeNext p) (node_next s p) n
      else Some (0, s))"

declare list_remove_loop.simps [code]

definition list_remove :: "mk_state \<Rightarrow> mk_link \<Rightarrow> addr \<Rightarrow> (int \<times> mk_state) option" where
  "list_remove s head n = list_remove_loop s head (mk_load s head) n"

text \<open>
  The seeding loop of \<^verbatim>\<open>allocator_create\<close>:
  \<^verbatim>\<open>for (size_t i=0;i<blocks;i++){ b = arena + (i << max_order); push b on free_lists[max_order] }\<close>
\<close>

function create_seed :: "mk_state \<Rightarrow> addr \<Rightarrow> size_t \<Rightarrow> size_t \<Rightarrow> mk_state" where
  "create_seed s arena blocks i =
     (if i < blocks then
        let b = arena + push_bit (max_order s) i
        in create_seed (list_push s (Slot (max_order s)) b) arena blocks (i + 1)
      else s)"
  by pat_completeness auto
termination
proof (relation "measure (\<lambda>(s, arena, blocks, i). unat blocks - unat i)", goal_cases)
  case 1
  show ?case by simp
next
  case (2 s arena blocks i b)
  then have "unat i < unat blocks"
    by (simp add: word_less_nat_alt)
  moreover have "unat blocks < 2 ^ LENGTH(64)"
    by (rule unsigned_less)
  ultimately have "unat i + unat (1 :: size_t) < 2 ^ LENGTH(64)"
    by simp
  then have "unat (i + 1) = unat i + 1"
    by (simp only: unat_add_lem [THEN iffD1] unat_1)
  with \<open>unat i < unat blocks\<close> show ?case
    by simp
qed

declare create_seed.simps [simp del]

text \<open>
  \<^verbatim>\<open>allocator_create\<close>. The first argument is the memory before the call; the result is
  \<open>None\<close> when the C function returns \<^verbatim>\<open>NULL\<close>. (\<open>create_min_order\<close> is \<open>Some 4\<close>, see
  \<open>create_min_order_eq\<close>, so its \<open>None\<close> branch is never taken.)
\<close>

definition mk_allocator_create :: "mk_state \<Rightarrow> addr \<Rightarrow> size_t \<Rightarrow> mk_state option" where
  "mk_allocator_create m memory sz =
     (let A = m\<lparr>mk_base := memory, mk_size := sz\<rparr>;
          off = align_up sizeof_mk_Allocator 16;
          usable = sz - off
      in if usable < 64 then None
         else case create_min_order of
           None \<Rightarrow> None
         | Some mo \<Rightarrow>
             let A1 = A\<lparr>min_order := mo\<rparr>;
                 A2 = A1\<lparr>max_order := create_max_order usable 0\<rparr>
             in if max_order A2 < min_order A2 then None
                else
                  let A3 = A2\<lparr>free_lists := (\<lambda>i. if i < 64 then 0 else free_lists A2 i)\<rparr>;
                      arena = mk_base A3 + off;
                      mask = pow2 (max_order A3) - 1;
                      aligned = (arena + mask) AND NOT mask;
                      align_pad = aligned - arena
                  in if usable \<le> align_pad then None
                     else
                       let usable1 = usable - align_pad;
                           usable2 = usable1 AND NOT mask;
                           blocks = drop_bit (max_order A3) usable2
                       in Some (create_seed A3 aligned blocks 0))"

text \<open>
  \<^verbatim>\<open>order_for\<close>: \<^verbatim>\<open>need = size + sizeof(uint16_t); k = min_order; while (pow2(k) < need) k++;\<close>
  Shifting a 64-bit value by 64 or more is undefined behaviour in C: the model reports it
  as \<open>None\<close> instead of continuing.
\<close>

function order_for_loop :: "size_t \<Rightarrow> nat \<Rightarrow> nat option" where
  "order_for_loop need k =
     (if 64 \<le> k then None
      else if pow2 k < need then order_for_loop need (k + 1) else Some k)"
  by pat_completeness auto
termination
  by (relation "measure (\<lambda>(need, k). 64 - k)") auto

declare order_for_loop.simps [simp del]

definition order_for :: "size_t \<Rightarrow> nat \<Rightarrow> nat option" where
  "order_for sz mo = order_for_loop (sz + sizeof_uint16_t) mo"

text \<open>\<^verbatim>\<open>while (cur <= A->max_order && A->free_lists[cur] == NULL) cur++;\<close>\<close>

function find_order :: "mk_state \<Rightarrow> nat \<Rightarrow> nat" where
  "find_order s cur =
     (if cur \<le> max_order s \<and> free_lists s cur = 0 then find_order s (cur + 1) else cur)"
  by pat_completeness auto
termination
  by (relation "measure (\<lambda>(s, cur). max_order s + 1 - cur)") auto

declare find_order.simps [simp del]

text \<open>
  \<^verbatim>\<open>while (cur > k){ cur--; buddy = block + pow2(cur); list_push(&A->free_lists[cur], buddy); }\<close>
\<close>

function split_down :: "mk_state \<Rightarrow> addr \<Rightarrow> nat \<Rightarrow> nat \<Rightarrow> mk_state" where
  "split_down s block k cur =
     (if k < cur then
        let cur1 = cur - 1;
            buddy = block + pow2 cur1
        in split_down (list_push s (Slot cur1) buddy) block k cur1
      else s)"
  by pat_completeness auto
termination
  by (relation "measure (\<lambda>(s, block, k, cur). cur)") auto

declare split_down.simps [simp del]

text \<open>
  \<^verbatim>\<open>allocator_alloc\<close>: the returned pointer (0 is \<^verbatim>\<open>NULL\<close>) and the memory after the call;
  \<open>None\<close> only for the undefined shift in \<open>order_for\<close>.
\<close>

definition mk_allocator_alloc :: "mk_state \<Rightarrow> size_t \<Rightarrow> (addr \<times> mk_state) option" where
  "mk_allocator_alloc s sz =
     (if sz = 0 then Some (0, s)
      else case order_for sz (min_order s) of
        None \<Rightarrow> None
      | Some k \<Rightarrow>
          if max_order s < k then Some (0, s)
          else
            let cur = find_order s k
            in if max_order s < cur then Some (0, s)
               else
                 let (node, s1) = list_pop s (Slot cur);
                     block = node;
                     s2 = split_down s1 block k cur;
                     s3 = s2\<lparr>hdr := (hdr s2)(block := of_nat k)\<rparr>
                 in Some (block + sizeof_uint16_t, s3))"

text \<open>
  The membership scan of \<^verbatim>\<open>allocator_free\<close>:
  \<^verbatim>\<open>while (it){ if ((unsigned char* )it == buddy){ found = 1; break; } it = it->next; }\<close>
\<close>

partial_function (option) scan_buddy :: "mk_state \<Rightarrow> addr \<Rightarrow> addr \<Rightarrow> bool option" where
  "scan_buddy s it buddy =
     (if it \<noteq> 0 then
        if it = buddy then Some True else scan_buddy s (node_next s it) buddy
      else Some False)"

declare scan_buddy.simps [code]

text \<open>
  \<^verbatim>\<open>rel = block - A->base; buddy_rel = rel ^ pow2(k); buddy = A->base + buddy_rel;\<close>
  Note that \<open>rel\<close> is taken from \<^verbatim>\<open>A->base\<close>, the start of the caller's memory.

  \<open>free_loop\<close> is the \<^verbatim>\<open>for(;;)\<close> loop of \<^verbatim>\<open>allocator_free\<close>, one call per iteration. \<open>k\<close> is
  the \<^verbatim>\<open>uint16_t\<close> order; it is incremented only while it does not exceed \<^verbatim>\<open>max_order\<close>.
\<close>

definition buddy_addr :: "mk_state \<Rightarrow> addr \<Rightarrow> nat \<Rightarrow> addr" where
  "buddy_addr s block k =
     (let rel = block - mk_base s;
          buddy_rel = rel XOR pow2 k
      in mk_base s + buddy_rel)"

partial_function (option) free_loop :: "mk_state \<Rightarrow> addr \<Rightarrow> nat \<Rightarrow> mk_state option" where
  "free_loop s block k =
     (let buddy = buddy_addr s block k
      in case scan_buddy s (free_lists s k) buddy of
           None \<Rightarrow> None
         | Some found \<Rightarrow>
             if \<not> found then Some (list_push s (Slot k) block)
             else (case list_remove s (Slot k) buddy of
               None \<Rightarrow> None
             | Some (r, s1) \<Rightarrow>
                 let block1 = (if buddy < block then buddy else block);
                     k1 = k + 1
                 in if max_order s1 < k1 then Some (list_push s1 (Slot (k1 - 1)) block1)
                    else free_loop s1 block1 k1))"

declare free_loop.simps [code]

definition mk_allocator_free :: "mk_state \<Rightarrow> addr \<Rightarrow> mk_state option" where
  "mk_allocator_free s ptr =
     (if ptr = 0 then Some s
      else
        let p = ptr - sizeof_uint16_t;
            k = unat (hdr s p);
            block = p
        in free_loop s block k)"


section \<open>Specification vocabulary\<close>

subsection \<open>Linked lists in memory\<close>

text \<open>
  \<open>seg nx p xs q\<close>: following the pointer field \<open>nx\<close> from \<open>p\<close> visits exactly the nodes
  \<open>xs\<close>, none of them \<^verbatim>\<open>NULL\<close>, and arrives at \<open>q\<close>. A \<^verbatim>\<open>NULL\<close>-terminated list is a segment
  that arrives at 0.
\<close>

primrec seg :: "(addr \<Rightarrow> addr) \<Rightarrow> addr \<Rightarrow> addr list \<Rightarrow> addr \<Rightarrow> bool" where
  "seg nx p [] q = (p = q)"
| "seg nx p (x # xs) q = (p = x \<and> x \<noteq> 0 \<and> seg nx (nx x) xs q)"

abbreviation chain :: "(addr \<Rightarrow> addr) \<Rightarrow> addr \<Rightarrow> addr list \<Rightarrow> bool" where
  "chain nx p xs \<equiv> seg nx p xs 0"

subsection \<open>Blocks as address intervals\<close>

text \<open>
  \<open>geom mn lo hi B sz\<close>: every block \<open>b\<close> of the set \<open>B\<close> occupies the addresses from \<open>b\<close>
  up to \<open>b + sz b\<close>, has at least \<open>mn\<close> bytes, lies between \<open>lo\<close> and \<open>hi\<close>, and no two blocks
  overlap.
\<close>

definition geom :: "nat \<Rightarrow> nat \<Rightarrow> nat \<Rightarrow> addr set \<Rightarrow> (addr \<Rightarrow> nat) \<Rightarrow> bool" where
  "geom mn lo hi B sz =
     ((\<forall>b\<in>B. lo \<le> unat b \<and> mn \<le> sz b \<and> unat b + sz b \<le> hi) \<and>
      (\<forall>b\<in>B. \<forall>c\<in>B. unat b < unat c \<longrightarrow> unat b + sz b \<le> unat c))"

text \<open>Half-open intervals of addresses, as pairs of naturals.\<close>

definition apart :: "nat \<times> nat \<Rightarrow> nat \<times> nat \<Rightarrow> bool" where
  "apart i j = (snd i \<le> fst j \<or> snd j \<le> fst i)"

definition within :: "nat \<times> nat \<Rightarrow> nat \<times> nat \<Rightarrow> bool" where
  "within i j = (fst j \<le> fst i \<and> fst i \<le> snd i \<and> snd i \<le> snd j)"

subsection \<open>Free-list allocator: reachable states and their invariant\<close>

text \<open>
  The caller's obligations. The memory handed to \<^verbatim>\<open>allocator_create\<close> is a real object: not
  at \<^verbatim>\<open>NULL\<close>, not wrapping around the address space, at most \<open>2^63\<close> bytes, and large enough
  for the descriptor and one header. A request size is one whose rounding plus header does
  not overflow \<^verbatim>\<open>size_t\<close>.
\<close>

definition fl_arena_ok :: "addr \<Rightarrow> size_t \<Rightarrow> bool" where
  "fl_arena_ok memory sz =
     (memory \<noteq> 0 \<and> 48 \<le> unat sz \<and> unat sz \<le> 2 ^ 63 \<and> unat memory + unat sz < 2 ^ 64)"

definition fl_size_ok :: "size_t \<Rightarrow> bool" where
  "fl_size_ok n = (unat n + 39 < 2 ^ 64)"

text \<open>
  \<open>fl_reach memory sz s L\<close>: \<open>s\<close> is the memory after some sequence of calls on the allocator
  created over \<open>memory\<close>, \<open>sz\<close>, and \<open>L\<close> is the set of pointers returned by
  \<^verbatim>\<open>allocator_alloc\<close> and not yet freed. Only pointers in \<open>L\<close> (or \<^verbatim>\<open>NULL\<close>) are freed.
\<close>

inductive fl_reach :: "addr \<Rightarrow> size_t \<Rightarrow> fl_state \<Rightarrow> addr set \<Rightarrow> bool"
  for memory :: addr and sz :: size_t where
  fl_reach_create:
    "fl_arena_ok memory sz \<Longrightarrow> fl_reach memory sz (fl_allocator_create m memory sz) {}"
| fl_reach_alloc:
    "fl_reach memory sz s L \<Longrightarrow> fl_size_ok n \<Longrightarrow> fl_allocator_alloc s n = Some (p, s') \<Longrightarrow>
     p \<noteq> 0 \<Longrightarrow> fl_reach memory sz s' (insert p L)"
| fl_reach_alloc_null:
    "fl_reach memory sz s L \<Longrightarrow> fl_size_ok n \<Longrightarrow> fl_allocator_alloc s n = Some (0, s') \<Longrightarrow>
     fl_reach memory sz s' L"
| fl_reach_free:
    "fl_reach memory sz s L \<Longrightarrow> p \<in> L \<Longrightarrow> fl_allocator_free s p = Some s' \<Longrightarrow>
     fl_reach memory sz s' (L - {p})"
| fl_reach_free_null:
    "fl_reach memory sz s L \<Longrightarrow> fl_allocator_free s 0 = Some s' \<Longrightarrow> fl_reach memory sz s' L"

text \<open>
  The blocks of the arena: the nodes \<open>xs\<close> of the free list and the blocks of the live
  pointers. \<open>fl_bytes s b\<close> is the size recorded in the header of \<open>b\<close>, \<open>fl_end s b\<close> the
  address just past the block.
\<close>

definition fl_blocks :: "addr list \<Rightarrow> addr set \<Rightarrow> addr set" where
  "fl_blocks xs L = set xs \<union> ptr_to_block ` L"

definition fl_bytes :: "fl_state \<Rightarrow> addr \<Rightarrow> nat" where
  "fl_bytes s b = unat (blk_size s b)"

definition fl_end :: "fl_state \<Rightarrow> addr \<Rightarrow> nat" where
  "fl_end s b = unat b + fl_bytes s b"

text \<open>
  The invariant of the free-list allocator: the free list is a \<^verbatim>\<open>NULL\<close>-terminated chain \<open>xs\<close>
  in ascending address order whose nodes are flagged free, no live block is on it, and the
  free and live blocks are non-overlapping blocks of at least a header each, placed after
  the descriptor and inside the arena.
\<close>

definition fl_inv :: "addr \<Rightarrow> size_t \<Rightarrow> fl_state \<Rightarrow> addr list \<Rightarrow> addr set \<Rightarrow> bool" where
  "fl_inv memory sz s xs L =
     (fl_arena_ok memory sz \<and> fl_base s = memory \<and> fl_size s = sz \<and>
      chain (blk_next s) (free_list s) xs \<and>
      sorted_wrt (<) xs \<and>
      (\<forall>q\<in>set xs. blk_free s q \<noteq> 0) \<and>
      set xs \<inter> ptr_to_block ` L = {} \<and>
      geom 24 (unat memory + 24) (unat memory + unat sz) (fl_blocks xs L) (fl_bytes s))"

text \<open>A block fits a request of \<open>need\<close> bytes: \<^verbatim>\<open>p->free && p->size >= need\<close>.\<close>

definition fits :: "fl_state \<Rightarrow> size_t \<Rightarrow> addr \<Rightarrow> bool" where
  "fits s need p = (blk_free s p \<noteq> 0 \<and> need \<le> blk_size s p)"

text \<open>
  The \<^verbatim>\<open>block_header **\<close> that a scan holds after it has walked over the nodes \<open>as\<close>,
  starting with \<open>pp\<close>: the \<^verbatim>\<open>next\<close> member of the last node walked over.
\<close>

fun fl_link_after :: "fl_link \<Rightarrow> addr list \<Rightarrow> fl_link" where
  "fl_link_after pp [] = pp"
| "fl_link_after pp (a # as) = fl_link_after (Next a) as"

subsection \<open>Buddy allocator: reachable states and their invariant\<close>

text \<open>
  The caller's obligations: the memory handed to \<^verbatim>\<open>allocator_create\<close> is a real object that
  can hold the descriptor (its size rounded up to 16 is 544 bytes).
\<close>

definition mk_arena_ok :: "addr \<Rightarrow> size_t \<Rightarrow> bool" where
  "mk_arena_ok memory sz = (memory \<noteq> 0 \<and> 544 \<le> unat sz \<and> unat memory + unat sz < 2 ^ 64)"

text \<open>
  \<open>mk_reach memory sz s L\<close>: \<open>s\<close> is the memory after some sequence of calls on the allocator
  created over \<open>memory\<close>, \<open>sz\<close>, and \<open>L\<close> is the set of pointers returned by
  \<^verbatim>\<open>allocator_alloc\<close> and not yet freed. Only pointers in \<open>L\<close> (or \<^verbatim>\<open>NULL\<close>) are freed.
\<close>

inductive mk_reach :: "addr \<Rightarrow> size_t \<Rightarrow> mk_state \<Rightarrow> addr set \<Rightarrow> bool"
  for memory :: addr and sz :: size_t where
  mk_reach_create:
    "mk_arena_ok memory sz \<Longrightarrow> mk_allocator_create m memory sz = Some s \<Longrightarrow>
     mk_reach memory sz s {}"
| mk_reach_alloc:
    "mk_reach memory sz s L \<Longrightarrow> mk_allocator_alloc s n = Some (p, s') \<Longrightarrow> p \<noteq> 0 \<Longrightarrow>
     mk_reach memory sz s' (insert p L)"
| mk_reach_alloc_null:
    "mk_reach memory sz s L \<Longrightarrow> mk_allocator_alloc s n = Some (0, s') \<Longrightarrow>
     mk_reach memory sz s' L"
| mk_reach_free:
    "mk_reach memory sz s L \<Longrightarrow> p \<in> L \<Longrightarrow> mk_allocator_free s p = Some s' \<Longrightarrow>
     mk_reach memory sz s' (L - {p})"
| mk_reach_free_null:
    "mk_reach memory sz s L \<Longrightarrow> mk_allocator_free s 0 = Some s' \<Longrightarrow> mk_reach memory sz s' L"

text \<open>
  The block of a live pointer starts at its order tag, two bytes before it. \<open>mk_free F mo\<close>
  are the nodes of the free lists of orders up to \<open>mo\<close>, \<open>F k\<close> being the nodes of list \<open>k\<close>.
\<close>

definition tag_of :: "addr \<Rightarrow> addr" where
  "tag_of p = p - sizeof_uint16_t"

definition mk_free :: "(nat \<Rightarrow> addr list) \<Rightarrow> nat \<Rightarrow> addr set" where
  "mk_free F mo = (\<Union>k\<in>{..mo}. set (F k))"

definition mk_blocks :: "(nat \<Rightarrow> addr list) \<Rightarrow> nat \<Rightarrow> addr set \<Rightarrow> addr set \<Rightarrow> addr set" where
  "mk_blocks F mo L H = mk_free F mo \<union> tag_of ` L \<union> H"

text \<open>
  The invariant of the buddy allocator. \<open>F k\<close> is the \<^verbatim>\<open>NULL\<close>-terminated chain of free list
  \<open>k\<close>, \<open>od b\<close> the order of block \<open>b\<close> (the index of its list when it is free, its tag when
  it is live), \<open>L\<close> the live pointers and \<open>H\<close> the blocks that a running call has taken off
  the lists and not yet handed out or put back (empty between calls). The blocks are
  non-overlapping power-of-two blocks of orders 4 to \<^verbatim>\<open>max_order\<close>, all at multiples of 16,
  placed after the descriptor and inside the arena.
\<close>

definition mk_inv ::
  "addr \<Rightarrow> size_t \<Rightarrow> mk_state \<Rightarrow> (nat \<Rightarrow> addr list) \<Rightarrow> (addr \<Rightarrow> nat) \<Rightarrow> addr set \<Rightarrow> addr set \<Rightarrow> bool"
  where
  "mk_inv memory sz s F od L H =
     (mk_arena_ok memory sz \<and> mk_base s = memory \<and>
      min_order s = 4 \<and> 4 \<le> max_order s \<and> max_order s \<le> 20 \<and>
      (\<forall>k\<le>max_order s. chain (node_next s) (free_lists s k) (F k) \<and> (\<forall>b\<in>set (F k). od b = k)) \<and>
      (\<forall>p\<in>L. unat (hdr s (tag_of p)) = od (tag_of p)) \<and>
      mk_free F (max_order s) \<inter> tag_of ` L = {} \<and>
      H \<inter> (mk_free F (max_order s) \<union> tag_of ` L) = {} \<and>
      geom 16 (unat memory + 544) (unat memory + unat sz)
        (mk_blocks F (max_order s) L H) (\<lambda>b. 2 ^ od b) \<and>
      (\<forall>b\<in>mk_blocks F (max_order s) L H. 4 \<le> od b \<and> od b \<le> max_order s \<and> 16 dvd unat b))"

text \<open>
  The \<^verbatim>\<open>FreeNode **\<close> that a scan of a list holds after it has walked over the nodes \<open>as\<close>,
  starting with \<open>pp\<close>.
\<close>

fun mk_link_after :: "mk_link \<Rightarrow> addr list \<Rightarrow> mk_link" where
  "mk_link_after pp [] = pp"
| "mk_link_after pp (a # as) = mk_link_after (NodeNext a) as"

text \<open>
  The quantities that \<^verbatim>\<open>allocator_create\<close> computes, as functions of its arguments: the
  offset of the working arena, its usable length, the top order, the aligned start, the
  alignment padding and the number of top-order blocks; \<open>seed_list\<close> is the free list that
  the seeding loop builds, last block pushed first.
\<close>

definition create_off :: size_t where
  "create_off = align_up sizeof_mk_Allocator 16"

definition create_usable :: "size_t \<Rightarrow> size_t" where
  "create_usable sz = sz - create_off"

definition create_order :: "size_t \<Rightarrow> nat" where
  "create_order sz = create_max_order (create_usable sz) 0"

definition create_aligned :: "addr \<Rightarrow> size_t \<Rightarrow> addr" where
  "create_aligned memory sz =
     (let arena = memory + create_off; mask = pow2 (create_order sz) - 1
      in (arena + mask) AND NOT mask)"

definition create_align_pad :: "addr \<Rightarrow> size_t \<Rightarrow> size_t" where
  "create_align_pad memory sz = create_aligned memory sz - (memory + create_off)"

definition create_blocks :: "addr \<Rightarrow> size_t \<Rightarrow> size_t" where
  "create_blocks memory sz =
     drop_bit (create_order sz)
       ((create_usable sz - create_align_pad memory sz) AND NOT (pow2 (create_order sz) - 1))"

definition seed_block :: "addr \<Rightarrow> nat \<Rightarrow> nat \<Rightarrow> addr" where
  "seed_block arena mo j = arena + push_bit mo (of_nat j)"

definition seed_list :: "addr \<Rightarrow> nat \<Rightarrow> nat \<Rightarrow> addr list" where
  "seed_list arena mo n = rev (map (seed_block arena mo) [0..<n])"

subsection \<open>Live regions and metadata\<close>

text \<open>
  Free-list allocator. The usable region of a live pointer \<open>p\<close> runs from \<open>p\<close> to the end of
  its block. The allocator's metadata are the descriptor at the start of the memory, the
  headers of the free blocks and the headers of the live blocks.
\<close>

definition fl_region :: "fl_state \<Rightarrow> addr \<Rightarrow> nat \<times> nat" where
  "fl_region s p = (unat p, fl_end s (ptr_to_block p))"

definition fl_meta :: "addr \<Rightarrow> addr list \<Rightarrow> addr set \<Rightarrow> (nat \<times> nat) set" where
  "fl_meta memory xs L =
     {(unat memory, unat memory + unat sizeof_fl_Allocator)} \<union>
     (\<lambda>q. (unat q, unat q + unat sizeof_block_header)) ` set xs \<union>
     (\<lambda>p. (unat (ptr_to_block p), unat p)) ` L"

definition fl_safe :: "addr \<Rightarrow> size_t \<Rightarrow> fl_state \<Rightarrow> addr set \<Rightarrow> bool" where
  "fl_safe memory sz s L =
     (\<exists>xs. chain (blk_next s) (free_list s) xs \<and>
        (\<forall>p\<in>L. within (fl_region s p) (unat memory, unat memory + unat sz) \<and>
           (\<forall>q\<in>L. p \<noteq> q \<longrightarrow> apart (fl_region s p) (fl_region s q)) \<and>
           (\<forall>i\<in>fl_meta memory xs L. apart (fl_region s p) i)))"

text \<open>
  Buddy allocator. The usable region of a live pointer \<open>p\<close> runs from \<open>p\<close> to the end of the
  block of \<open>2^k\<close> bytes that starts at its tag, \<open>k\<close> being the tag's value. The metadata are
  the descriptor, the \<^verbatim>\<open>FreeNode\<close> at the start of every free block (8 bytes) and the tags of
  the live blocks.
\<close>

definition mk_region :: "mk_state \<Rightarrow> addr \<Rightarrow> nat \<times> nat" where
  "mk_region s p = (unat p, unat (tag_of p) + 2 ^ unat (hdr s (tag_of p)))"

definition mk_meta :: "addr \<Rightarrow> (nat \<Rightarrow> addr list) \<Rightarrow> nat \<Rightarrow> addr set \<Rightarrow> (nat \<times> nat) set" where
  "mk_meta memory F mo L =
     {(unat memory, unat memory + unat sizeof_mk_Allocator)} \<union>
     (\<lambda>q. (unat q, unat q + 8)) ` mk_free F mo \<union>
     (\<lambda>p. (unat (tag_of p), unat p)) ` L"

definition mk_safe :: "addr \<Rightarrow> size_t \<Rightarrow> mk_state \<Rightarrow> addr set \<Rightarrow> bool" where
  "mk_safe memory sz s L =
     (\<exists>F. (\<forall>k\<le>max_order s. chain (node_next s) (free_lists s k) (F k)) \<and>
        (\<forall>p\<in>L. within (mk_region s p) (unat memory, unat memory + unat sz) \<and>
           (\<forall>q\<in>L. p \<noteq> q \<longrightarrow> apart (mk_region s p) (mk_region s q)) \<and>
           (\<forall>i\<in>mk_meta memory F (max_order s) L. apart (mk_region s p) i)))"

text \<open>
  \<open>fl_spans s lo hi\<close>: one block of the free list covers the addresses from \<open>lo\<close> up to
  \<open>hi\<close>, and no other block of the free list holds any of them.
\<close>

definition fl_spans :: "fl_state \<Rightarrow> nat \<Rightarrow> nat \<Rightarrow> bool" where
  "fl_spans s lo hi =
     (\<exists>xs. chain (blk_next s) (free_list s) xs \<and>
        (\<exists>f\<in>set xs. unat f \<le> lo \<and> hi \<le> fl_end s f \<and>
           (\<forall>g\<in>set xs. unat g < hi \<and> lo < fl_end s g \<longrightarrow> g = f)))"

subsection \<open>Concrete arenas\<close>

text \<open>
  Memory that is zero everywhere, and the free-list allocator created over the 4096 bytes
  at address \<open>0x10000\<close>.
\<close>

definition fl_mem0 :: fl_state where
  "fl_mem0 = \<lparr>fl_base = 0, fl_size = 0, free_list = 0,
     blk_size = (\<lambda>_. 0), blk_next = (\<lambda>_. 0), blk_free = (\<lambda>_. 0)\<rparr>"

definition fl_demo :: fl_state where
  "fl_demo = fl_allocator_create fl_mem0 0x10000 4096"

text \<open>Zeroed memory for the buddy allocator.\<close>

definition mk_mem0 :: mk_state where
  "mk_mem0 = \<lparr>mk_base = 0, mk_size = 0, min_order = 0, max_order = 0,
     free_lists = (\<lambda>_. 0), node_next = (\<lambda>_. 0), hdr = (\<lambda>_. 0)\<rparr>"

text \<open>
  The buddy allocator created over 8192 bytes at the 4096-aligned address \<open>0x10000\<close>
  (\<^verbatim>\<open>max_order\<close> is 12 and the one top block is at \<open>0x11000\<close>), and the states after
  three requests of 20 bytes.
\<close>

definition mk_demo :: mk_state where
  "mk_demo = the (mk_allocator_create mk_mem0 0x10000 8192)"

definition mk_demo1 :: "addr \<times> mk_state" where
  "mk_demo1 = the (mk_allocator_alloc mk_demo 20)"

definition mk_demo2 :: "addr \<times> mk_state" where
  "mk_demo2 = the (mk_allocator_alloc (snd mk_demo1) 20)"

definition mk_demo3 :: "addr \<times> mk_state" where
  "mk_demo3 = the (mk_allocator_alloc (snd mk_demo2) 20)"

text \<open>
  The buddy allocator created over \<open>0x8000\<close> bytes at the page-aligned address \<open>0x11000\<close>
  (\<^verbatim>\<open>max_order\<close> is 14, the arena is aligned up to \<open>0x14000\<close>): three requests of 4094 bytes,
  then the third and the second block are freed, then 8190 bytes are requested.
\<close>

definition mk_odd :: mk_state where
  "mk_odd = the (mk_allocator_create mk_mem0 0x11000 0x8000)"

definition mk_odd1 :: "addr \<times> mk_state" where
  "mk_odd1 = the (mk_allocator_alloc mk_odd 4094)"

definition mk_odd2 :: "addr \<times> mk_state" where
  "mk_odd2 = the (mk_allocator_alloc (snd mk_odd1) 4094)"

definition mk_odd3 :: "addr \<times> mk_state" where
  "mk_odd3 = the (mk_allocator_alloc (snd mk_odd2) 4094)"

definition mk_odd4 :: mk_state where
  "mk_odd4 = the (mk_allocator_free (snd mk_odd3) (fst mk_odd3))"

definition mk_odd5 :: mk_state where
  "mk_odd5 = the (mk_allocator_free mk_odd4 (fst mk_odd2))"

definition mk_odd6 :: "addr \<times> mk_state" where
  "mk_odd6 = the (mk_allocator_alloc mk_odd5 8190)"

text \<open>
  In the same arena, after the three requests, the first and the second block (the two
  halves of the block of order 13 at \<open>0x14000\<close>) are freed, the first one first
  (\<open>mk_odd8\<close>) and the second one first (\<open>mk_odd9\<close>).
\<close>

definition mk_odd7 :: mk_state where
  "mk_odd7 = the (mk_allocator_free (snd mk_odd3) (fst mk_odd1))"

definition mk_odd8 :: mk_state where
  "mk_odd8 = the (mk_allocator_free mk_odd7 (fst mk_odd2))"

definition mk_odd9 :: mk_state where
  "mk_odd9 =
     the (mk_allocator_free (the (mk_allocator_free (snd mk_odd3) (fst mk_odd2))) (fst mk_odd1))"

text \<open>
  The buddy allocator created over 8192 bytes at \<open>0x11800\<close> (\<^verbatim>\<open>min_order\<close> is 4,
  \<^verbatim>\<open>max_order\<close> is 12, the one top block is at \<open>0x12000\<close>): one request of 20 bytes, freed
  at once.
\<close>

definition mk_skew :: mk_state where
  "mk_skew = the (mk_allocator_create mk_mem0 0x11800 8192)"

definition mk_skew1 :: "addr \<times> mk_state" where
  "mk_skew1 = the (mk_allocator_alloc mk_skew 20)"

definition mk_skew2 :: mk_state where
  "mk_skew2 = the (mk_allocator_free (snd mk_skew1) (fst mk_skew1))"

text \<open>
  The buddy allocator created over 4 MiB at \<open>0x200000\<close> (\<^verbatim>\<open>max_order\<close> is 20, three top
  blocks): one request of 1000000 bytes, freed at once.
\<close>

definition mk_big :: mk_state where
  "mk_big = the (mk_allocator_create mk_mem0 0x200000 0x400000)"

definition mk_big1 :: "addr \<times> mk_state" where
  "mk_big1 = the (mk_allocator_alloc mk_big 1000000)"

definition mk_big2 :: mk_state where
  "mk_big2 = the (mk_allocator_free (snd mk_big1) (fst mk_big1))"

text \<open>Two requests of 100 bytes on the free-list arena.\<close>

definition fl_demo1 :: "addr \<times> fl_state" where
  "fl_demo1 = the (fl_allocator_alloc fl_demo 100)"

definition fl_demo2 :: "addr \<times> fl_state" where
  "fl_demo2 = the (fl_allocator_alloc (snd fl_demo1) 100)"

text \<open>The two blocks are then freed, the first one first.\<close>

definition fl_demo3 :: fl_state where
  "fl_demo3 = the (fl_allocator_free (snd fl_demo2) (fst fl_demo1))"

definition fl_demo4 :: fl_state where
  "fl_demo4 = the (fl_allocator_free fl_demo3 (fst fl_demo2))"

section \<open>Auxiliary facts\<close>

subsection \<open>Words\<close>

lemma and_not_mask_push_drop: "(y :: 'a::len word) AND NOT (mask n) = push_bit n (drop_bit n y)"
  by (rule bit_word_eqI) (auto simp: bit_simps)

lemma unat_and_not_mask: "unat ((y :: 'a::len word) AND NOT (mask n)) = unat y - unat y mod 2 ^ n"
proof -
  have "unat (push_bit n (drop_bit n y)) = take_bit LENGTH('a) (push_bit n (unat (drop_bit n y)))"
    by (simp add: unsigned_push_bit_eq)
  also have "unat (drop_bit n y) = unat y div 2 ^ n"
    unfolding unat_drop_bit_eq by (rule drop_bit_eq_div)
  also have "push_bit n (unat y div 2 ^ n) = unat y - unat y mod 2 ^ n"
    by (simp add: push_bit_eq_mult minus_mod_eq_div_mult)
  also have "take_bit LENGTH('a) (unat y - unat y mod 2 ^ n) = unat y - unat y mod 2 ^ n"
  proof -
    have "unat y - unat y mod 2 ^ n \<le> unat y" by simp
    also have "unat y < 2 ^ LENGTH('a)" by (rule unsigned_less)
    finally show ?thesis by (simp add: take_bit_nat_eq_self)
  qed
  finally show ?thesis by (simp add: and_not_mask_push_drop)
qed

lemma align_up_16: "align_up n 16 = (n + 15) AND NOT (mask 4)"
  by (simp add: align_up_def mask_eq_exp_minus_1)

lemma unat_align_up_16:
  assumes "unat n + 15 < 2 ^ 64"
  shows "unat (align_up n 16) = (unat n + 15) - (unat n + 15) mod 16"
proof -
  have "unat (n + 15) = unat n + 15"
    using assms by (simp add: unat_add_lem [THEN iffD1])
  then show ?thesis
    by (simp add: align_up_16 unat_and_not_mask)
qed

lemma align_up_16_bounds:
  assumes "unat n + 15 < 2 ^ 64"
  shows "unat n \<le> unat (align_up n 16)" "unat (align_up n 16) \<le> unat n + 15"
    "n \<noteq> 0 \<Longrightarrow> 16 \<le> unat (align_up n 16)"
proof -
  have e: "unat (align_up n 16) = (unat n + 15) - (unat n + 15) mod 16"
    using assms by (rule unat_align_up_16)
  show "unat n \<le> unat (align_up n 16)" unfolding e by presburger
  show "unat (align_up n 16) \<le> unat n + 15" unfolding e by presburger
  show "16 \<le> unat (align_up n 16)" if "n \<noteq> 0"
  proof -
    from that have "0 < unat n" by (simp add: unat_gt_0)
    then show ?thesis unfolding e by presburger
  qed
qed

lemma pow2_unat: "k < 64 \<Longrightarrow> unat (pow2 k) = 2 ^ k"
proof -
  assume k: "k < 64"
  have "unat (push_bit k (1 :: 64 word)) = take_bit LENGTH(64) (push_bit k (unat (1 :: 64 word)))"
    by (simp only: unsigned_push_bit_eq)
  also have "\<dots> = take_bit 64 ((2 :: nat) ^ k)"
    by (simp add: push_bit_eq_mult)
  also have "\<dots> = 2 ^ k"
    using k by (simp add: take_bit_nat_eq_self)
  finally show ?thesis by (simp only: pow2_def)
qed

lemma and_not_eq_diff: "(y :: 'a::len word) AND NOT m = y - (y AND m)"
proof -
  have "NOT y AND (y AND m) = 0"
    by (rule bit_word_eqI) (auto simp: bit_simps)
  then have "y - (y AND m) = y AND NOT (y AND m)"
    by (rule disjunctive_diff_eq_and_not)
  also have "\<dots> = y AND NOT m"
    by (rule bit_word_eqI) (auto simp: bit_simps)
  finally show ?thesis by simp
qed

lemma pow2_mask: "pow2 n - 1 = mask n"
  by (simp add: pow2_def mask_eq_exp_minus_1)

lemma unat_mask_64: "n < 64 \<Longrightarrow> unat (mask n :: 64 word) = 2 ^ n - 1"
proof -
  assume n: "n < 64"
  have p: "unat (pow2 n) = 2 ^ n" using n by (rule pow2_unat)
  then have "unat (1 :: 64 word) \<le> unat (pow2 n)" by simp
  then have "(1 :: 64 word) \<le> pow2 n" by (simp only: word_le_nat_alt)
  then have "unat (pow2 n - 1) = unat (pow2 n) - unat (1 :: 64 word)" by (rule unat_sub)
  then show ?thesis by (simp add: p pow2_mask)
qed

lemma align_word:
  fixes x :: "64 word"
  assumes n: "n < 64"
  defines "a \<equiv> (x + mask n) AND NOT (mask n)"
  shows "unat (a - x) < 2 ^ n" and "2 ^ n dvd unat a"
    and "unat x + unat (a - x) < 2 ^ 64 \<Longrightarrow> unat a = unat x + unat (a - x)"
proof -
  let ?y = "x + mask n"
  have a: "a = ?y - (?y AND mask n)" unfolding a_def by (rule and_not_eq_diff)
  have pad: "a - x = mask n - (?y AND mask n)" unfolding a by simp
  have le: "?y AND mask n \<le> mask n" by (rule word_and_le1)
  then have "unat (a - x) = unat (mask n :: 64 word) - unat (?y AND mask n)"
    unfolding pad by (rule unat_sub)
  then have "unat (a - x) \<le> 2 ^ n - 1" using unat_mask_64 [OF n] by simp
  moreover have "(0 :: nat) < 2 ^ n" by simp
  ultimately show "unat (a - x) < 2 ^ n" by linarith
  have "unat a = unat ?y - unat ?y mod 2 ^ n" unfolding a_def by (rule unat_and_not_mask)
  then show "2 ^ n dvd unat a" by (simp add: dvd_minus_mod)
  show "unat a = unat x + unat (a - x)" if "unat x + unat (a - x) < 2 ^ 64"
  proof -
    have "unat x + unat (a - x) < 2 ^ LENGTH(64)" using that by simp
    then have "unat (x + (a - x)) = unat x + unat (a - x)" by (rule unat_add_lem [THEN iffD1])
    then show ?thesis by simp
  qed
qed

lemma unat_push_bit_of_nat:
  assumes "j * 2 ^ n < 2 ^ 64"
  shows "unat (push_bit n (of_nat j :: 64 word)) = j * 2 ^ n"
proof -
  have "j * 1 \<le> j * 2 ^ n" by (intro mult_le_mono) simp_all
  then have "j \<le> j * 2 ^ n" by simp
  also note assms
  finally have j: "j < 2 ^ 64" .
  then have uj: "unat (of_nat j :: 64 word) = j" by (simp add: unat_of_nat)
  have "unat (push_bit n (of_nat j :: 64 word)) =
      take_bit LENGTH(64) (push_bit n (unat (of_nat j :: 64 word)))"
    by (simp only: unsigned_push_bit_eq)
  also have "\<dots> = take_bit 64 (j * 2 ^ n)" by (simp add: uj push_bit_eq_mult)
  also have "\<dots> = j * 2 ^ n" using assms by (simp add: take_bit_nat_eq_self)
  finally show ?thesis .
qed

lemma create_min_order_eq: "create_min_order = Some 4"
  by (simp add: create_min_order_def pow2_def sizeof_uint16_t_def)

lemma create_max_order_props:
  "m0 \<le> create_max_order usable m0 \<and> create_max_order usable m0 \<le> max m0 20 \<and>
   (\<forall>j. m0 \<le> j \<and> j < create_max_order usable m0 \<longrightarrow> pow2 (j + 1) \<le> usable) \<and>
   (create_max_order usable m0 < 20 \<longrightarrow> \<not> pow2 (create_max_order usable m0 + 1) \<le> usable)"
proof (induction usable m0 rule: create_max_order.induct)
  case (1 usable m)
  have eq: "create_max_order usable m =
      (if m < 20 \<and> pow2 (m + 1) \<le> usable then create_max_order usable (m + 1) else m)"
    by (rule create_max_order.simps)
  show ?case
  proof (cases "m < 20 \<and> pow2 (m + 1) \<le> usable")
    case True
    then have e: "create_max_order usable m = create_max_order usable (m + 1)"
      by (subst eq) simp
    note ih = "1.IH" [OF True]
    have "pow2 (j + 1) \<le> usable" if "m \<le> j" "j < create_max_order usable (m + 1)" for j
    proof (cases "j = m")
      case True
      then show ?thesis using \<open>m < 20 \<and> pow2 (m + 1) \<le> usable\<close> by simp
    next
      case False
      with that have "m + 1 \<le> j" by simp
      with ih that show ?thesis by simp
    qed
    with ih True show ?thesis unfolding e by auto
  next
    case False
    then have "create_max_order usable m = m" by (subst eq) auto
    with False show ?thesis by auto
  qed
qed

lemma create_max_order_bounds:
  assumes "64 \<le> usable"
  defines "mo \<equiv> create_max_order usable 0"
  shows "6 \<le> mo" "mo \<le> 20" "2 ^ mo \<le> unat usable"
proof -
  note p = create_max_order_props [of 0 usable, folded mo_def]
  show "mo \<le> 20" using p by simp
  show 6: "6 \<le> mo"
  proof (rule ccontr)
    assume "\<not> 6 \<le> mo"
    then have lt: "mo < 6" by simp
    with p have "\<not> pow2 (mo + 1) \<le> usable" by simp
    then have "unat usable < 2 ^ (mo + 1)"
      using lt by (simp add: word_le_nat_alt pow2_unat)
    also have "(2::nat) ^ (mo + 1) \<le> 2 ^ 6"
      using lt by (intro power_increasing) simp_all
    finally show False using assms(1) by (simp add: word_le_nat_alt)
  qed
  then obtain j where j: "mo = j + 1" by (cases mo) auto
  with p have "pow2 (j + 1) \<le> usable" by simp
  moreover have "mo < 64" using \<open>mo \<le> 20\<close> by simp
  ultimately show "2 ^ mo \<le> unat usable"
    using j by (simp add: word_le_nat_alt pow2_unat)
qed

subsection \<open>Chains\<close>

lemma seg_append: "seg nx p (as @ bs) q = (\<exists>r. seg nx p as r \<and> seg nx r bs q)"
  by (induction as arbitrary: p) auto

lemma chain_not_null: "chain nx p xs \<Longrightarrow> 0 \<notin> set xs"
  by (induction xs arbitrary: p) auto

lemma seg_not_null: "seg nx p xs q \<Longrightarrow> 0 \<notin> set xs"
  by (induction xs arbitrary: p) auto

lemma chain_unique: "chain nx p xs \<Longrightarrow> chain nx p ys \<Longrightarrow> xs = ys"
proof (induction xs arbitrary: p ys)
  case Nil
  then show ?case by (cases ys) auto
next
  case (Cons x xs)
  then show ?case by (cases ys) auto
qed

lemma chain_distinct: "chain nx p xs \<Longrightarrow> distinct xs"
proof (induction xs arbitrary: p)
  case Nil
  show ?case by simp
next
  case (Cons x xs)
  have tl: "chain nx (nx x) xs" using Cons.prems by simp
  have "x \<notin> set xs"
  proof
    assume "x \<in> set xs"
    then obtain as bs where xs: "xs = as @ x # bs"
      by (auto simp: in_set_conv_decomp)
    with tl have "chain nx (nx x) bs"
      by (auto simp: seg_append)
    with tl have "xs = bs" by (rule chain_unique)
    with xs show False by simp
  qed
  with Cons.IH [OF tl] show ?case by simp
qed

lemma seg_upd: "a \<notin> set xs \<Longrightarrow> seg (nx(a := v)) p xs q = seg nx p xs q"
  by (induction xs arbitrary: p) auto

lemma fl_link_after_snoc [simp]: "fl_link_after pp (as @ [a]) = Next a"
  by (induction as arbitrary: pp) auto

lemma fl_alloc_loop_none:
  "chain (blk_next s) p xs \<Longrightarrow> \<forall>x\<in>set xs. \<not> fits s need x \<Longrightarrow>
   fl_alloc_loop s need pp p = Some (0, s)"
proof (induction xs arbitrary: p pp)
  case Nil
  then show ?case by (simp add: fl_alloc_loop.simps)
next
  case (Cons x xs)
  then show ?case
    by (subst fl_alloc_loop.simps) (auto simp: fits_def)
qed

lemma fl_alloc_loop_found:
  "chain (blk_next s) p (as @ q # cs) \<Longrightarrow> \<forall>x\<in>set as. \<not> fits s need x \<Longrightarrow> fits s need q \<Longrightarrow>
   fl_alloc_loop s need pp p = Some (fl_take s need (fl_link_after pp as) q)"
proof (induction as arbitrary: p pp)
  case Nil
  then show ?case by (subst fl_alloc_loop.simps) (auto simp: fits_def)
next
  case (Cons x as)
  then show ?case
    by (subst fl_alloc_loop.simps) (auto simp: fits_def)
qed
subsection \<open>Non-overlapping blocks\<close>

lemma geom_sub: "geom mn lo hi B sz \<Longrightarrow> C \<subseteq> B \<Longrightarrow> geom mn lo hi C sz"
  unfolding geom_def by blast

lemma geom_cong: "\<forall>b\<in>B. sz' b = sz b \<Longrightarrow> geom mn lo hi B sz' = geom mn lo hi B sz"
  unfolding geom_def by auto

lemma geom_bounds:
  "geom mn lo hi B sz \<Longrightarrow> b \<in> B \<Longrightarrow> lo \<le> unat b \<and> mn \<le> sz b \<and> unat b + sz b \<le> hi"
  unfolding geom_def by blast

lemma geom_order:
  "geom mn lo hi B sz \<Longrightarrow> b \<in> B \<Longrightarrow> c \<in> B \<Longrightarrow> unat b < unat c \<Longrightarrow> unat b + sz b \<le> unat c"
  unfolding geom_def by blast

lemma geom_overlap_eq:
  assumes g: "geom mn lo hi B sz" and b: "b \<in> B" and c: "c \<in> B"
    and le: "unat b \<le> unat c" and lt: "unat c < unat b + sz b"
  shows "b = c"
proof (rule ccontr)
  assume "b \<noteq> c"
  then have "unat b \<noteq> unat c" by (simp add: word_unat_eq_iff)
  with le have "unat b < unat c" by simp
  from geom_order [OF g b c this] lt show False by simp
qed

lemma geom_split:
  assumes g: "geom mn lo hi B sz" and q: "q \<in> B" and mn: "0 < mn"
    and n: "mn \<le> n" "n + mn \<le> sz q" and nb: "unat nb = unat q + n"
  shows "nb \<notin> B" and "geom mn lo hi (insert nb B) (sz(nb := sz q - n, q := n))"
proof -
  have qb: "lo \<le> unat q" "unat q + sz q \<le> hi"
    using geom_bounds [OF g q] by simp_all
  show nbB: "nb \<notin> B"
  proof
    assume "nb \<in> B"
    have "unat q < unat nb" using nb mn n by simp
    from geom_order [OF g q \<open>nb \<in> B\<close> this] nb n mn show False by simp
  qed
  have neq: "nb \<noteq> q" using nb mn n by auto
  let ?sz = "sz(nb := sz q - n, q := n)"
  have other: "?sz b = sz b" if "b \<in> B" "b \<noteq> q" for b
    using that nbB by auto
  have szq: "?sz q = n" by simp
  have sznb: "?sz nb = sz q - n" using neq by simp
  have bounds: "lo \<le> unat b \<and> mn \<le> ?sz b \<and> unat b + ?sz b \<le> hi" if "b \<in> insert nb B" for b
  proof (cases "b = nb")
    case True
    then show ?thesis using sznb nb n qb by simp
  next
    case False
    with that have bB: "b \<in> B" by simp
    show ?thesis
    proof (cases "b = q")
      case True
      then show ?thesis using szq n qb by simp
    next
      case False
      then show ?thesis using other [OF bB] geom_bounds [OF g bB] by simp
    qed
  qed
  have order: "unat b + ?sz b \<le> unat c"
    if b: "b \<in> insert nb B" and c: "c \<in> insert nb B" and lt: "unat b < unat c" for b c
  proof -
    consider (bn) "b = nb" | (bq) "b = q" | (bo) "b \<in> B" "b \<noteq> q" "b \<noteq> nb"
      using b by blast
    then show ?thesis
    proof cases
      case bn
      then have "c \<noteq> nb" "c \<noteq> q" using lt nb by auto
      with c have cB: "c \<in> B" by simp
      have "unat q < unat c" using lt bn nb by simp
      from geom_order [OF g q cB this] show ?thesis using bn sznb nb n by simp
    next
      case bq
      show ?thesis
      proof (cases "c = nb")
        case True
        then show ?thesis using bq szq nb by simp
      next
        case False
        with c have cB: "c \<in> B" by simp
        from geom_order [OF g q cB] lt bq have "unat q + sz q \<le> unat c" by simp
        then show ?thesis using bq szq n by simp
      qed
    next
      case bo
      have sb: "?sz b = sz b" using other bo by simp
      show ?thesis
      proof (cases "c = nb")
        case True
        show ?thesis
        proof (cases "unat b < unat q")
          case True
          from geom_order [OF g bo(1) q this] show ?thesis
            using sb \<open>c = nb\<close> nb by simp
        next
          case False
          then have "unat q < unat b" using bo(2) by (simp add: word_unat_eq_iff)
          from geom_order [OF g q bo(1) this] lt \<open>c = nb\<close> nb n mn show ?thesis by simp
        qed
      next
        case False
        with c have cB: "c \<in> B" by simp
        from geom_order [OF g bo(1) cB lt] sb show ?thesis by simp
      qed
    qed
  qed
  show "geom mn lo hi (insert nb B) ?sz"
    unfolding geom_def using bounds order by blast
qed

lemma geom_merge:
  assumes g: "geom mn lo hi B sz" and b: "b \<in> B" and c: "c \<in> B" and mn: "0 < mn"
    and adj: "unat b + sz b = unat c"
  shows "geom mn lo hi (B - {c}) (sz(b := sz b + sz c))"
proof -
  let ?sz = "sz(b := sz b + sz c)"
  have bb: "lo \<le> unat b" "mn \<le> sz b" using geom_bounds [OF g b] by simp_all
  have cb: "mn \<le> sz c" "unat c + sz c \<le> hi" using geom_bounds [OF g c] by simp_all
  have bounds: "lo \<le> unat x \<and> mn \<le> ?sz x \<and> unat x + ?sz x \<le> hi" if "x \<in> B - {c}" for x
  proof (cases "x = b")
    case True
    then show ?thesis using bb cb adj by simp
  next
    case False
    then show ?thesis using that geom_bounds [OF g, of x] by simp
  qed
  have order: "unat x + ?sz x \<le> unat y"
    if x: "x \<in> B - {c}" and y: "y \<in> B - {c}" and lt: "unat x < unat y" for x y
  proof (cases "x = b")
    case True
    have "unat c < unat y"
    proof (rule ccontr)
      assume "\<not> unat c < unat y"
      then have "unat y \<le> unat c" by simp
      moreover have "unat y \<noteq> unat c" using y by (simp add: word_unat_eq_iff)
      ultimately have "unat y < unat c" by simp
      moreover have "unat b + sz b \<le> unat y"
        using geom_order [OF g b _ lt [unfolded True]] y by simp
      ultimately show False using adj by simp
    qed
    from geom_order [OF g c _ this] y show ?thesis using True adj by simp
  next
    case False
    then show ?thesis using geom_order [OF g _ _ lt] x y by simp
  qed
  show ?thesis unfolding geom_def using bounds order by blast
qed

section \<open>Free-list allocator: the invariant is kept\<close>

lemma fl_store_fields [simp]:
  "blk_size (fl_store s pp v) = blk_size s"
  "blk_free (fl_store s pp v) = blk_free s"
  "fl_base (fl_store s pp v) = fl_base s"
  "fl_size (fl_store s pp v) = fl_size s"
  by (cases pp; simp)+

lemma fl_store_next_other:
  "x \<notin> set as \<Longrightarrow> blk_next (fl_store s (fl_link_after Head as) v) x = blk_next s x"
  by (cases as rule: rev_cases) auto

lemma fl_store_relink:
  assumes "seg (blk_next s) (free_list s) as q" and "distinct as"
  shows "seg (blk_next (fl_store s (fl_link_after Head as) v))
           (free_list (fl_store s (fl_link_after Head as) v)) as v"
proof (cases as rule: rev_cases)
  case Nil
  then show ?thesis by simp
next
  case (snoc bs a)
  with assms have "seg (blk_next s) (free_list s) bs a" "a \<noteq> 0" "a \<notin> set bs"
    by (auto simp: seg_append)
  then show ?thesis
    using snoc by (simp add: seg_append seg_upd)
qed

lemma seg_cong: "\<forall>x\<in>set xs. nx' x = nx x \<Longrightarrow> seg nx' p xs q = seg nx p xs q"
  by (induction xs arbitrary: p) auto

lemma fl_arena_okD:
  assumes "fl_arena_ok memory sz"
  shows "unat (memory + 24) = unat memory + 24" "unat (sz - 24) = unat sz - 24"
    "memory + 24 \<noteq> 0"
proof -
  from assms have a: "48 \<le> unat sz" "unat memory + unat sz < 2 ^ 64"
    by (simp_all add: fl_arena_ok_def)
  then have "unat memory + unat (24 :: addr) < 2 ^ LENGTH(64)" by simp
  then show m: "unat (memory + 24) = unat memory + 24"
    by (simp add: unat_add_lem [THEN iffD1])
  have "(24 :: size_t) \<le> sz" using a by (simp add: word_le_nat_alt)
  then show "unat (sz - 24) = unat sz - 24" by (simp add: unat_sub)
  show "memory + 24 \<noteq> 0" using m by (metis add_is_0 unat_0 zero_neq_numeral)
qed

lemma fl_create_inv:
  assumes "fl_arena_ok memory sz"
  shows "fl_inv memory sz (fl_allocator_create m memory sz) [memory + 24] {}"
proof -
  have off: "align_up sizeof_fl_Allocator alignof_block_header = 24"
    by (simp add: align_up_def sizeof_fl_Allocator_def alignof_block_header_def)
  from assms have "48 \<le> unat sz" by (simp add: fl_arena_ok_def)
  then show ?thesis
    using assms fl_arena_okD [OF assms]
    by (simp add: fl_inv_def fl_allocator_create_def off Let_def geom_def fl_blocks_def
        fl_bytes_def)
qed

lemma ptr_to_block_add [simp]: "ptr_to_block (q + 24) = q"
  by (simp add: ptr_to_block_def sizeof_block_header_def)

lemma fl_blocks_simps:
  "fl_blocks xs (insert p L) = insert (ptr_to_block p) (fl_blocks xs L)"
  "fl_blocks (x # xs) L = insert x (fl_blocks xs L)"
  "fl_blocks (as @ bs) L = set as \<union> fl_blocks bs L"
  by (auto simp: fl_blocks_def)

lemma fl_block_facts:
  assumes inv: "fl_inv memory sz s xs L" and b: "b \<in> fl_blocks xs L"
  shows "unat memory + 24 \<le> unat b" "24 \<le> fl_bytes s b"
    "fl_end s b \<le> unat memory + unat sz" "fl_end s b < 2 ^ 64"
    "fl_bytes s b \<le> 2 ^ 63"
    "unat (b + 24) = unat b + 24" "b \<noteq> 0" "b + 24 \<noteq> 0"
    "unat (b + blk_size s b) = fl_end s b"
proof -
  from inv have ok: "fl_arena_ok memory sz"
    and g: "geom 24 (unat memory + 24) (unat memory + unat sz) (fl_blocks xs L) (fl_bytes s)"
    by (simp_all add: fl_inv_def)
  from geom_bounds [OF g b]
  show 1: "unat memory + 24 \<le> unat b" and 2: "24 \<le> fl_bytes s b"
    and 3: "fl_end s b \<le> unat memory + unat sz"
    by (simp_all add: fl_end_def)
  from ok have lim: "unat memory + unat sz < 2 ^ 64" "unat sz \<le> 2 ^ 63"
    by (simp_all add: fl_arena_ok_def)
  with 3 show 4: "fl_end s b < 2 ^ 64" by simp
  from 1 3 lim show "fl_bytes s b \<le> 2 ^ 63" by (simp add: fl_end_def)
  from 2 4 have "unat b + unat (24 :: addr) < 2 ^ LENGTH(64)"
    by (simp add: fl_end_def)
  then show 5: "unat (b + 24) = unat b + 24"
    by (simp add: unat_add_lem [THEN iffD1])
  from 1 show "b \<noteq> 0" by (auto simp: unat_eq_zero)
  from 5 show "b + 24 \<noteq> 0" by (metis add_is_0 unat_0 zero_neq_numeral)
  from 4 have "unat b + unat (blk_size s b) < 2 ^ LENGTH(64)"
    by (simp add: fl_end_def fl_bytes_def)
  then show "unat (b + blk_size s b) = fl_end s b"
    by (simp add: unat_add_lem [THEN iffD1] fl_end_def fl_bytes_def)
qed

lemma fl_inv_chain_facts:
  assumes "fl_inv memory sz s xs L"
  shows "chain (blk_next s) (free_list s) xs" "distinct xs" "0 \<notin> set xs"
    "sorted_wrt (<) xs"
  using assms chain_distinct [of "blk_next s" "free_list s" xs]
    chain_not_null [of "blk_next s" "free_list s" xs]
  by (simp_all add: fl_inv_def)

lemma seg_frame: "seg nx p xs q \<Longrightarrow> \<forall>x\<in>set xs. nx' x = nx x \<Longrightarrow> seg nx' p xs q"
  by (induction xs arbitrary: p) auto

lemma fl_take_inv:
  assumes inv: "fl_inv memory sz s (as @ q # cs) L"
    and fit: "need \<le> blk_size s q"
    and need: "40 \<le> unat need"
  shows "fst (fl_take s need (fl_link_after Head as) q) = q + 24"
    and "fl_inv memory sz (snd (fl_take s need (fl_link_after Head as) q))
          (as @ (if need + sizeof_block_header + 16 \<le> blk_size s q then [q + need] else []) @ cs)
          (insert (q + 24) L)"
    and "blk_free (snd (fl_take s need (fl_link_after Head as) q)) q = 0"
    and "blk_size (snd (fl_take s need (fl_link_after Head as) q)) q =
          (if need + sizeof_block_header + 16 \<le> blk_size s q then need else blk_size s q)"
    and "need + sizeof_block_header + 16 \<le> blk_size s q \<Longrightarrow>
          blk_size (snd (fl_take s need (fl_link_after Head as) q)) (q + need) = blk_size s q - need \<and>
          blk_free (snd (fl_take s need (fl_link_after Head as) q)) (q + need) = 1"
    and "\<forall>b\<in>fl_blocks (as @ cs) L. blk_size (snd (fl_take s need (fl_link_after Head as) q)) b = blk_size s b"
proof -
  let ?xs = "as @ q # cs"
  let ?pp = "fl_link_after Head as"
  let ?B = "fl_blocks ?xs L"
  let ?lo = "unat memory + 24" and ?hi = "unat memory + unat sz"
  have qB: "q \<in> ?B" by (simp add: fl_blocks_def)
  note qf = fl_block_facts [OF inv qB]
  note cf = fl_inv_chain_facts [OF inv]
  from inv have ok: "fl_arena_ok memory sz" and base: "fl_base s = memory" "fl_size s = sz"
    and free: "\<forall>x\<in>set ?xs. blk_free s x \<noteq> 0"
    and live: "set ?xs \<inter> ptr_to_block ` L = {}"
    and g: "geom 24 ?lo ?hi ?B (fl_bytes s)"
    by (simp_all add: fl_inv_def)
  have nle: "unat need \<le> fl_bytes s q"
    using fit by (simp add: word_le_nat_alt fl_bytes_def)
  have n40: "unat (need + sizeof_block_header + 16) = unat need + 40"
  proof -
    have e: "need + sizeof_block_header + 16 = need + 40"
      by (simp add: sizeof_block_header_def)
    have "unat need + unat (40 :: size_t) < 2 ^ LENGTH(64)"
      using nle qf(5) by simp
    then have "unat (need + 40) = unat need + unat (40 :: size_t)"
      by (rule unat_add_lem [THEN iffD1])
    then show ?thesis by (simp add: e)
  qed
  have split_iff: "need + sizeof_block_header + 16 \<le> blk_size s q \<longleftrightarrow> unat need + 40 \<le> fl_bytes s q"
    by (simp add: word_le_nat_alt n40 fl_bytes_def)
  have seg_as: "seg (blk_next s) (free_list s) as q" and q0: "q \<noteq> 0"
    and ch_cs: "chain (blk_next s) (blk_next s q) cs"
    using cf(1) by (auto simp: seg_append)
  have dis: "distinct as" "q \<notin> set as" "q \<notin> set cs" "set as \<inter> set cs = {}"
    using cf(2) by auto
  have qL: "q \<notin> ptr_to_block ` L" using live by auto
  have nx_cs: "blk_next (fl_store t ?pp v) x = blk_next t x" if "x \<in> set cs" for x t v
  proof -
    from that dis have "x \<notin> set as" by auto
    then show ?thesis by (rule fl_store_next_other)
  qed
  have sorted: "sorted_wrt (<) as" "sorted_wrt (<) cs" "\<forall>a\<in>set as. a < q" "\<forall>c\<in>set cs. q < c"
    "\<forall>a\<in>set as. \<forall>c\<in>set cs. a < c"
    using cf(4) by (auto simp: sorted_wrt_append)
  show "fst (fl_take s need ?pp q) = q + 24"
    by (simp add: fl_take_def Let_def sizeof_block_header_def)
  show "blk_free (snd (fl_take s need ?pp q)) q = 0"
    by (simp add: fl_take_def Let_def)
  show "fl_inv memory sz (snd (fl_take s need ?pp q))
          (as @ (if need + sizeof_block_header + 16 \<le> blk_size s q then [q + need] else []) @ cs)
          (insert (q + 24) L)"
  proof (cases "need + sizeof_block_header + 16 \<le> blk_size s q")
    case False
    let ?s' = "snd (fl_take s need ?pp q)"
    have sp: "split_block s q need = s" using False by (simp add: split_block_def)
    have f1: "blk_size ?s' = blk_size s" "blk_free ?s' = (blk_free s)(q := 0)"
      "fl_base ?s' = memory" "fl_size ?s' = sz"
      by (simp_all add: fl_take_def Let_def sp base)
    have f2: "blk_next ?s' = (blk_next (fl_store s ?pp (blk_next s q)))(q := 0)"
      "free_list ?s' = free_list (fl_store s ?pp (blk_next s q))"
      by (cases ?pp; simp add: fl_take_def Let_def sp)+
    have "seg (blk_next ?s') (free_list ?s') as (blk_next s q)"
      unfolding f2 using fl_store_relink [OF seg_as dis(1)] dis(2) by (simp add: seg_upd)
    moreover have "chain (blk_next ?s') (blk_next s q) cs"
    proof -
      have "\<forall>x\<in>set cs. blk_next ?s' x = blk_next s x"
        unfolding f2 using dis by (auto simp: nx_cs)
      with ch_cs show ?thesis by (rule seg_frame)
    qed
    ultimately have ch: "chain (blk_next ?s') (free_list ?s') (as @ cs)"
      by (auto simp: seg_append)
    have B': "fl_blocks (as @ cs) (insert (q + 24) L) = ?B"
      by (auto simp: fl_blocks_def)
    have "geom 24 ?lo ?hi ?B (fl_bytes ?s')"
      using g by (simp add: fl_bytes_def [abs_def] f1)
    moreover have "sorted_wrt (<) (as @ cs)" using sorted by (simp add: sorted_wrt_append)
    moreover have "\<forall>x\<in>set (as @ cs). blk_free ?s' x \<noteq> 0"
      using free dis by (auto simp: f1)
    moreover have "set (as @ cs) \<inter> ptr_to_block ` insert (q + 24) L = {}"
      using live dis by auto
    ultimately show ?thesis
      using False ok ch by (simp add: fl_inv_def f1 B')
  next
    case True
    let ?s' = "snd (fl_take s need ?pp q)"
    let ?nb = "q + need"
    have n40': "unat need + 40 \<le> fl_bytes s q" using True split_iff by simp
    have unb: "unat ?nb = unat q + unat need"
    proof -
      have "unat q + unat need < 2 ^ LENGTH(64)"
        using qf(4) nle by (simp add: fl_end_def)
      then show ?thesis by (simp add: unat_add_lem [THEN iffD1])
    qed
    have rem: "unat (blk_size s q - need) = fl_bytes s q - unat need"
      using fit by (simp add: unat_sub fl_bytes_def)
    from geom_split [OF g qB _ _ _ unb, of ] need n40'
    have nbB: "?nb \<notin> ?B"
      and g': "geom 24 ?lo ?hi (insert ?nb ?B) ((fl_bytes s)(?nb := fl_bytes s q - unat need, q := unat need))"
      by simp_all
    have nbq: "?nb \<noteq> q" using unb need by auto
    have nb0: "?nb \<noteq> 0" using unb need by (auto simp: unat_eq_zero)
    have nb_notin: "?nb \<notin> set as" "?nb \<notin> set cs" "?nb \<notin> ptr_to_block ` L"
      using nbB by (auto simp: fl_blocks_def)
    define s1 where "s1 = split_block s q need"
    have s1: "blk_size s1 = (blk_size s)(?nb := blk_size s q - need, q := need)"
      "blk_next s1 = (blk_next s)(?nb := blk_next s q, q := ?nb)"
      "blk_free s1 = (blk_free s)(?nb := 1)"
      "free_list s1 = free_list s" "fl_base s1 = memory" "fl_size s1 = sz"
      using True nbq by (simp_all add: s1_def split_block_def Let_def base)
    have f1: "blk_size ?s' = blk_size s1" "blk_free ?s' = (blk_free s1)(q := 0)"
      "fl_base ?s' = memory" "fl_size ?s' = sz"
      by (simp_all add: fl_take_def Let_def s1_def [symmetric] s1)
    have f2: "blk_next ?s' = (blk_next (fl_store s1 ?pp ?nb))(q := 0)"
      "free_list ?s' = free_list (fl_store s1 ?pp ?nb)"
      by (cases ?pp; simp add: fl_take_def Let_def s1_def [symmetric] s1)+
    have seg1: "seg (blk_next s1) (free_list s1) as q"
      using seg_as dis nb_notin by (simp add: s1 seg_upd)
    have "seg (blk_next ?s') (free_list ?s') as ?nb"
      unfolding f2 using fl_store_relink [OF seg1 dis(1)] dis(2) by (simp add: seg_upd)
    moreover have "chain (blk_next ?s') ?nb (?nb # cs)"
    proof -
      have "chain (blk_next s1) ?nb (?nb # cs)"
        using ch_cs dis nb_notin nbq nb0 by (simp add: s1 seg_upd)
      moreover have "\<forall>x\<in>set (?nb # cs). blk_next ?s' x = blk_next s1 x"
        unfolding f2 using dis nb_notin nbq by (auto simp: nx_cs fl_store_next_other)
      ultimately show ?thesis by (rule seg_frame)
    qed
    ultimately have ch: "chain (blk_next ?s') (free_list ?s') (as @ ?nb # cs)"
      by (auto simp: seg_append)
    have B': "fl_blocks (as @ ?nb # cs) (insert (q + 24) L) = insert ?nb ?B"
      by (auto simp: fl_blocks_def)
    have by': "fl_bytes ?s' = (fl_bytes s)(?nb := fl_bytes s q - unat need, q := unat need)"
      by (auto simp: fl_bytes_def [abs_def] f1 s1 rem)
    have "sorted_wrt (<) (as @ ?nb # cs)"
    proof -
      have "a < ?nb" if "a \<in> set as" for a
      proof -
        from that sorted have "unat a < unat q" by (simp add: word_less_nat_alt)
        then show ?thesis using unb by (simp add: word_less_nat_alt)
      qed
      moreover have "?nb < c" if "c \<in> set cs" for c
      proof -
        from that sorted have "unat q < unat c" by (simp add: word_less_nat_alt)
        moreover have "c \<in> ?B" using that by (simp add: fl_blocks_def)
        ultimately have "unat q + fl_bytes s q \<le> unat c"
          using geom_order [OF g qB] by blast
        then show ?thesis using unb n40' by (simp add: word_less_nat_alt)
      qed
      ultimately show ?thesis using sorted by (auto simp: sorted_wrt_append)
    qed
    moreover have "\<forall>x\<in>set (as @ ?nb # cs). blk_free ?s' x \<noteq> 0"
      using free dis nbq by (auto simp: f1 s1)
    moreover have "set (as @ ?nb # cs) \<inter> ptr_to_block ` insert (q + 24) L = {}"
      using live dis nbq nb_notin by auto
    ultimately show ?thesis
      using True ok ch g' by (simp add: fl_inv_def f1 B' by')
  qed
  show "blk_size (snd (fl_take s need ?pp q)) q =
          (if need + sizeof_block_header + 16 \<le> blk_size s q then need else blk_size s q)"
    by (simp add: fl_take_def Let_def split_block_def)
  show "blk_size (snd (fl_take s need ?pp q)) (q + need) = blk_size s q - need \<and>
        blk_free (snd (fl_take s need ?pp q)) (q + need) = 1"
    if "need + sizeof_block_header + 16 \<le> blk_size s q"
  proof -
    have "unat (q + need) = unat q + unat need"
    proof -
      have "unat q + unat need < 2 ^ LENGTH(64)"
        using qf(4) nle by (simp add: fl_end_def)
      then show ?thesis by (simp add: unat_add_lem [THEN iffD1])
    qed
    then have "q + need \<noteq> q" using need by auto
    then show ?thesis using that by (simp add: fl_take_def Let_def split_block_def)
  qed
  show "\<forall>b\<in>fl_blocks (as @ cs) L. blk_size (snd (fl_take s need ?pp q)) b = blk_size s b"
  proof
    fix b assume b: "b \<in> fl_blocks (as @ cs) L"
    then have bq: "b \<noteq> q" using dis qL by (auto simp: fl_blocks_def)
    have bB: "b \<in> ?B" using b by (auto simp: fl_blocks_def)
    show "blk_size (snd (fl_take s need ?pp q)) b = blk_size s b"
    proof (cases "need + sizeof_block_header + 16 \<le> blk_size s q")
      case False
      then show ?thesis by (simp add: fl_take_def Let_def split_block_def)
    next
      case True
      have unb: "unat (q + need) = unat q + unat need"
      proof -
        have "unat q + unat need < 2 ^ LENGTH(64)"
          using qf(4) nle by (simp add: fl_end_def)
        then show ?thesis by (simp add: unat_add_lem [THEN iffD1])
      qed
      from geom_split(1) [OF g qB _ _ _ unb] need True split_iff
      have "q + need \<notin> ?B" by simp
      with bB have "b \<noteq> q + need" by auto
      then show ?thesis using True bq by (simp add: fl_take_def Let_def split_block_def)
    qed
  qed
qed

lemma fl_find_pos_chain:
  "chain (blk_next s) p (as @ cs) \<Longrightarrow> \<forall>a\<in>set as. a < b \<Longrightarrow> cs = [] \<or> \<not> hd cs < b \<Longrightarrow>
   fl_find_pos s b pp p = Some (fl_link_after pp as, case cs of [] \<Rightarrow> 0 | c # _ \<Rightarrow> c)"
proof (induction as arbitrary: p pp)
  case Nil
  then show ?case
    by (subst fl_find_pos.simps) (auto split: list.splits)
next
  case (Cons a as)
  then show ?case
    by (subst fl_find_pos.simps) auto
qed

lemma fl_merge_prev_walk:
  "seg (blk_next s) p as b \<Longrightarrow> b \<notin> set as \<Longrightarrow>
   fl_merge_prev s b p =
     Some (if as \<noteq> [] \<and> last as + blk_size s (last as) = b then fl_absorb s (last as) b else s)"
proof (induction as arbitrary: p)
  case Nil
  then show ?case by (subst fl_merge_prev.simps) simp
next
  case (Cons a as)
  show ?case
  proof (cases as)
    case Nil
    with Cons.prems show ?thesis
      by (subst fl_merge_prev.simps, subst fl_merge_prev.simps) auto
  next
    case (Cons a' as')
    with Cons.prems have "blk_next s a \<noteq> b" by auto
    with Cons.prems Cons.IH [of "blk_next s a"] Cons show ?thesis
      by (subst fl_merge_prev.simps) auto
  qed
qed

lemma fl_absorb_inv:
  assumes inv: "fl_inv memory sz s (as @ a # c # cs) L" and adj: "fl_end s a = unat c"
  shows "fl_inv memory sz (fl_absorb s a c) (as @ a # cs) L"
    and "fl_bytes (fl_absorb s a c) = (fl_bytes s)(a := fl_bytes s a + fl_bytes s c)"
    and "blk_free (fl_absorb s a c) = blk_free s"
proof -
  let ?xs = "as @ a # c # cs"
  let ?B = "fl_blocks ?xs L"
  let ?lo = "unat memory + 24" and ?hi = "unat memory + unat sz"
  let ?s' = "fl_absorb s a c"
  have aB: "a \<in> ?B" and cB: "c \<in> ?B" by (simp_all add: fl_blocks_def)
  note af = fl_block_facts [OF inv aB]
  note cf = fl_block_facts [OF inv cB]
  note ch = fl_inv_chain_facts [OF inv]
  from inv have ok: "fl_arena_ok memory sz" and base: "fl_base s = memory" "fl_size s = sz"
    and free: "\<forall>x\<in>set ?xs. blk_free s x \<noteq> 0"
    and live: "set ?xs \<inter> ptr_to_block ` L = {}"
    and g: "geom 24 ?lo ?hi ?B (fl_bytes s)"
    by (simp_all add: fl_inv_def)
  have f: "blk_size ?s' = (blk_size s)(a := blk_size s a + blk_size s c)"
    "blk_next ?s' = (blk_next s)(a := blk_next s c)"
    "blk_free ?s' = blk_free s" "free_list ?s' = free_list s"
    "fl_base ?s' = memory" "fl_size ?s' = sz"
    by (simp_all add: fl_absorb_def Let_def base)
  show "blk_free ?s' = blk_free s" by (rule f)
  have sum: "unat (blk_size s a + blk_size s c) = fl_bytes s a + fl_bytes s c"
  proof -
    have "unat (blk_size s a) + unat (blk_size s c) < 2 ^ LENGTH(64)"
      using cf(4) adj by (simp add: fl_end_def fl_bytes_def)
    then show ?thesis by (simp add: unat_add_lem [THEN iffD1] fl_bytes_def)
  qed
  show by': "fl_bytes ?s' = (fl_bytes s)(a := fl_bytes s a + fl_bytes s c)"
    by (auto simp: fl_bytes_def [abs_def] f sum [unfolded fl_bytes_def])
  have dis: "distinct as" "a \<notin> set as" "a \<notin> set cs" "c \<notin> set as" "c \<notin> set cs" "a \<noteq> c"
    using ch(2) by auto
  have "seg (blk_next s) (free_list s) as a" "a \<noteq> 0" "chain (blk_next s) (blk_next s c) cs"
    using ch(1) by (auto simp: seg_append)
  then have "chain (blk_next ?s') (free_list ?s') (as @ a # cs)"
    using dis by (simp add: f seg_append seg_upd)
  moreover have "sorted_wrt (<) (as @ a # cs)"
    using ch(4) by (auto simp: sorted_wrt_append)
  moreover have "\<forall>x\<in>set (as @ a # cs). blk_free ?s' x \<noteq> 0"
    using free by (simp add: f)
  moreover have "set (as @ a # cs) \<inter> ptr_to_block ` L = {}"
    using live by auto
  moreover have "geom 24 ?lo ?hi (fl_blocks (as @ a # cs) L) (fl_bytes ?s')"
  proof -
    have "c \<notin> ptr_to_block ` L" using live by auto
    then have "fl_blocks (as @ a # cs) L = ?B - {c}"
      using dis by (auto simp: fl_blocks_def)
    moreover have "unat a + fl_bytes s a = unat c" using adj by (simp add: fl_end_def)
    from geom_merge [OF g aB cB _ this]
    have "geom 24 ?lo ?hi (?B - {c}) ((fl_bytes s)(a := fl_bytes s a + fl_bytes s c))" by simp
    ultimately show ?thesis by (simp add: by')
  qed
  ultimately show "fl_inv memory sz ?s' (as @ a # cs) L"
    using ok by (simp add: fl_inv_def f)
qed

lemma ptr_to_block_inj: "ptr_to_block p = ptr_to_block q \<Longrightarrow> p = q"
  by (simp add: ptr_to_block_def)

lemma fl_insert_inv:
  assumes inv: "fl_inv memory sz s (as @ cs) L" and ptr: "ptr \<in> L"
    and lt: "\<forall>a\<in>set as. a < ptr_to_block ptr"
    and ge: "cs = [] \<or> \<not> hd cs < ptr_to_block ptr"
  defines "b \<equiv> ptr_to_block ptr"
  defines "s1 \<equiv> s\<lparr>blk_free := (blk_free s)(b := 1)\<rparr>"
  defines "s2 \<equiv> s1\<lparr>blk_next := (blk_next s1)(b := case cs of [] \<Rightarrow> 0 | c # _ \<Rightarrow> c)\<rparr>"
  defines "s3 \<equiv> fl_store s2 (fl_link_after Head as) b"
  shows "fl_inv memory sz s3 (as @ b # cs) (L - {ptr})" and "blk_size s3 = blk_size s"
proof -
  let ?xs = "as @ cs"
  let ?B = "fl_blocks ?xs L"
  let ?pp = "fl_link_after Head as"
  have bB: "b \<in> ?B" using ptr by (auto simp: fl_blocks_def b_def)
  note bf = fl_block_facts [OF inv bB]
  note ch = fl_inv_chain_facts [OF inv]
  from inv have ok: "fl_arena_ok memory sz" and base: "fl_base s = memory" "fl_size s = sz"
    and free: "\<forall>x\<in>set ?xs. blk_free s x \<noteq> 0"
    and live: "set ?xs \<inter> ptr_to_block ` L = {}"
    and g: "geom 24 (unat memory + 24) (unat memory + unat sz) ?B (fl_bytes s)"
    by (simp_all add: fl_inv_def)
  have b_notin: "b \<notin> set as" "b \<notin> set cs" using live ptr by (auto simp: b_def)
  have f: "blk_size s3 = blk_size s" "blk_free s3 = (blk_free s)(b := 1)"
    "fl_base s3 = memory" "fl_size s3 = sz"
    by (simp_all add: s3_def s2_def s1_def base)
  show "blk_size s3 = blk_size s" by (rule f)
  let ?c0 = "case cs of [] \<Rightarrow> 0 | c # _ \<Rightarrow> c"
  obtain r where seg_as: "seg (blk_next s) (free_list s) as r" and ch_cs: "chain (blk_next s) r cs"
    using ch(1) by (auto simp: seg_append)
  have r: "r = ?c0" using ch_cs by (cases cs) auto
  have s2f: "blk_next s2 = (blk_next s)(b := ?c0)" "free_list s2 = free_list s"
    by (simp_all add: s2_def s1_def)
  have "seg (blk_next s2) (free_list s2) as ?c0"
    using seg_as b_notin r by (simp add: s2f seg_upd)
  from fl_store_relink [OF this, of b] ch(2)
  have 1: "seg (blk_next s3) (free_list s3) as b" by (simp add: s3_def)
  have "chain (blk_next s2) b (b # cs)"
    using ch_cs r b_notin bf(7) by (simp add: s2f seg_upd)
  moreover have "\<forall>x\<in>set (b # cs). blk_next s3 x = blk_next s2 x"
  proof
    fix x assume "x \<in> set (b # cs)"
    then have "x \<notin> set as" using b_notin ch(2) by auto
    then show "blk_next s3 x = blk_next s2 x"
      unfolding s3_def by (rule fl_store_next_other)
  qed
  ultimately have 2: "chain (blk_next s3) b (b # cs)" by (rule seg_frame)
  from 1 2 have "chain (blk_next s3) (free_list s3) (as @ b # cs)"
    by (auto simp: seg_append)
  moreover have "sorted_wrt (<) (as @ b # cs)"
  proof -
    have "b < c" if "c \<in> set cs" for c
    proof -
      from that ge have "\<not> hd cs < b" by (auto simp: b_def)
      moreover from that ch(4) have "hd cs \<le> c"
        by (cases cs) (auto simp: sorted_wrt_append)
      ultimately have "b \<le> c" by simp
      moreover have "b \<noteq> c" using that b_notin by auto
      ultimately show ?thesis by simp
    qed
    then show ?thesis using ch(4) lt by (auto simp: sorted_wrt_append b_def)
  qed
  moreover have "\<forall>x\<in>set (as @ b # cs). blk_free s3 x \<noteq> 0"
    using free by (auto simp: f)
  moreover have "set (as @ b # cs) \<inter> ptr_to_block ` (L - {ptr}) = {}"
    using live by (auto simp: b_def dest: ptr_to_block_inj)
  moreover have "fl_blocks (as @ b # cs) (L - {ptr}) = ?B"
    using ptr by (auto simp: fl_blocks_def b_def)
  moreover have "fl_bytes s3 = fl_bytes s" by (simp add: fl_bytes_def [abs_def] f)
  ultimately show "fl_inv memory sz s3 (as @ b # cs) (L - {ptr})"
    using ok g by (simp add: fl_inv_def f)
qed

lemma block_of_ptr [simp]: "ptr_to_block ptr + 24 = ptr"
  by (simp add: ptr_to_block_def sizeof_block_header_def)

lemma fl_word_end_eq:
  assumes inv: "fl_inv memory sz s xs L" and a: "a \<in> fl_blocks xs L"
  shows "a + blk_size s a = c \<longleftrightarrow> fl_end s a = unat c"
  using fl_block_facts(9) [OF inv a] by (auto simp: word_unat_eq_iff)

lemma fl_free_shape:
  assumes inv: "fl_inv memory sz s xs L" and ptr: "ptr \<in> L"
  defines "b \<equiv> ptr_to_block ptr"
  defines "as \<equiv> takeWhile (\<lambda>a. a < b) xs"
  defines "cs \<equiv> dropWhile (\<lambda>a. a < b) xs"
  defines "mn \<equiv> cs \<noteq> [] \<and> fl_end s b = unat (hd cs)"
  defines "mp \<equiv> as \<noteq> [] \<and> fl_end s (last as) = unat b"
  defines "by4 \<equiv> (if mn then (fl_bytes s)(b := fl_bytes s b + fl_bytes s (hd cs)) else fl_bytes s)"
  shows "\<exists>s'. fl_allocator_free s ptr = Some s' \<and>
           fl_inv memory sz s' ((if mp then as else as @ [b]) @ (if mn then tl cs else cs)) (L - {ptr}) \<and>
           fl_bytes s' = (if mp then by4(last as := by4 (last as) + by4 b) else by4)"
proof -
  have xs: "xs = as @ cs" by (simp add: as_def cs_def)
  have lt: "\<forall>a\<in>set as. a < ptr_to_block ptr"
    by (auto simp: as_def b_def dest: set_takeWhileD)
  have ge: "cs = [] \<or> \<not> hd cs < ptr_to_block ptr"
    using hd_dropWhile [of "\<lambda>a. a < b" xs] by (auto simp: cs_def b_def)
  have bB: "b \<in> fl_blocks xs L" using ptr by (auto simp: fl_blocks_def b_def)
  note bf = fl_block_facts [OF inv bB]
  have ptr0: "ptr \<noteq> 0" using bf(8) by (simp add: b_def)
  define s1 where "s1 = s\<lparr>blk_free := (blk_free s)(b := 1)\<rparr>"
  define c0 where "c0 = (case cs of [] \<Rightarrow> 0 | c # _ \<Rightarrow> c)"
  define s2 where "s2 = s1\<lparr>blk_next := (blk_next s1)(b := c0)\<rparr>"
  define s3 where "s3 = fl_store s2 (fl_link_after Head as) b"
  define s4 where "s4 = fl_merge_next s3 b"
  have ch: "chain (blk_next s1) (free_list s1) (as @ cs)"
    using fl_inv_chain_facts(1) [OF inv] by (simp add: s1_def xs)
  have fp: "fl_find_pos s1 b Head (free_list s1) = Some (fl_link_after Head as, c0)"
    unfolding c0_def using ch lt ge by (intro fl_find_pos_chain) (auto simp: b_def)
  have fp': "fl_find_pos (s\<lparr>blk_free := (blk_free s)(b := 1)\<rparr>) b Head (free_list s) =
      Some (fl_link_after Head as, c0)"
    using fp by (simp add: s1_def)
  have free_eq: "fl_allocator_free s ptr = fl_merge_prev s4 b (free_list s4)"
    using ptr0 fp'
    by (simp add: fl_allocator_free_def Let_def b_def [symmetric] s4_def s3_def s2_def s1_def)
  from fl_insert_inv [OF inv [unfolded xs] ptr lt ge]
  have inv3: "fl_inv memory sz s3 (as @ b # cs) (L - {ptr})" and sz3: "blk_size s3 = blk_size s"
    by (simp_all add: s3_def s2_def s1_def c0_def b_def)
  have by3: "fl_bytes s3 = fl_bytes s" by (simp add: fl_bytes_def [abs_def] sz3)
  have end3: "fl_end s3 = fl_end s" by (simp add: fl_end_def [abs_def] by3)
  have bB3: "b \<in> fl_blocks (as @ b # cs) (L - {ptr})" by (simp add: fl_blocks_def)
  have b_as: "b \<notin> set as" using fl_inv_chain_facts(2) [OF inv3] by auto
  have nx3: "blk_next s3 b = c0"
    using fl_store_next_other [OF b_as, of s2 b] by (simp add: s3_def s2_def)
  \<comment> \<open>coalescing with the successor\<close>
  have inv4: "fl_inv memory sz s4 (as @ b # (if mn then tl cs else cs)) (L - {ptr})"
    and by4: "fl_bytes s4 = by4"
  proof -
    show "fl_inv memory sz s4 (as @ b # (if mn then tl cs else cs)) (L - {ptr})"
    proof (cases cs)
      case Nil
      then show ?thesis using inv3 nx3 by (simp add: s4_def fl_merge_next_def c0_def mn_def)
    next
      case (Cons c cs')
      then have c0: "c0 = c" by (simp add: c0_def)
      have c_nz: "c \<noteq> 0" "blk_free s3 c \<noteq> 0"
        using fl_inv_chain_facts(3) [OF inv3] inv3 Cons by (auto simp: fl_inv_def)
      have cond: "b + blk_size s3 b = c \<longleftrightarrow> fl_end s b = unat c"
        using fl_word_end_eq [OF inv3 bB3] by (simp add: end3)
      show ?thesis
      proof (cases "fl_end s b = unat c")
        case True
        then have "s4 = fl_absorb s3 b c"
          using c_nz cond by (simp add: s4_def fl_merge_next_def nx3 c0)
        moreover from True have "fl_end s3 b = unat c" by (simp add: end3)
        from fl_absorb_inv(1) [OF inv3 [unfolded Cons] this]
        have "fl_inv memory sz (fl_absorb s3 b c) (as @ b # cs') (L - {ptr})" .
        ultimately show ?thesis using True Cons by (simp add: mn_def)
      next
        case False
        then have "s4 = s3" using cond by (simp add: s4_def fl_merge_next_def nx3 c0)
        then show ?thesis using False Cons inv3 by (simp add: mn_def)
      qed
    qed
    show "fl_bytes s4 = by4"
    proof (cases cs)
      case Nil
      then show ?thesis using nx3 by3 by (simp add: s4_def fl_merge_next_def c0_def mn_def by4_def)
    next
      case (Cons c cs')
      then have c0: "c0 = c" by (simp add: c0_def)
      have c_nz: "c \<noteq> 0" "blk_free s3 c \<noteq> 0"
        using fl_inv_chain_facts(3) [OF inv3] inv3 Cons by (auto simp: fl_inv_def)
      have cond: "b + blk_size s3 b = c \<longleftrightarrow> fl_end s b = unat c"
        using fl_word_end_eq [OF inv3 bB3] by (simp add: end3)
      show ?thesis
      proof (cases "fl_end s b = unat c")
        case True
        then have "s4 = fl_absorb s3 b c"
          using c_nz cond by (simp add: s4_def fl_merge_next_def nx3 c0)
        moreover from True have "fl_end s3 b = unat c" by (simp add: end3)
        from fl_absorb_inv(2) [OF inv3 [unfolded Cons] this]
        have "fl_bytes (fl_absorb s3 b c) = (fl_bytes s3)(b := fl_bytes s3 b + fl_bytes s3 c)" .
        ultimately show ?thesis using True Cons by (simp add: mn_def by4_def by3)
      next
        case False
        then have "s4 = s3" using cond by (simp add: s4_def fl_merge_next_def nx3 c0)
        then show ?thesis using False Cons by3 by (simp add: mn_def by4_def)
      qed
    qed
  qed
  \<comment> \<open>coalescing with the predecessor\<close>
  let ?cs4 = "if mn then tl cs else cs"
  have seg4: "seg (blk_next s4) (free_list s4) as b"
    using fl_inv_chain_facts(1) [OF inv4] by (auto simp: seg_append)
  have walk: "fl_merge_prev s4 b (free_list s4) =
      Some (if as \<noteq> [] \<and> last as + blk_size s4 (last as) = b then fl_absorb s4 (last as) b else s4)"
    using seg4 b_as by (rule fl_merge_prev_walk)
  have by4_as: "by4 a = fl_bytes s a" if "a \<in> set as" for a
    using that b_as by (auto simp: by4_def)
  show ?thesis
  proof (cases "as = []")
    case True
    then show ?thesis using walk inv4 by4 free_eq by (simp add: mp_def)
  next
    case False
    then obtain as' a where as': "as = as' @ [a]" by (cases as rule: rev_cases) auto
    have aB4: "a \<in> fl_blocks (as @ b # ?cs4) (L - {ptr})" by (simp add: fl_blocks_def as')
    have "fl_end s4 a = fl_end s a"
      using by4 by4_as [of a] by (simp add: fl_end_def as')
    then have cond: "a + blk_size s4 a = b \<longleftrightarrow> fl_end s a = unat b"
      using fl_word_end_eq [OF inv4 aB4] by simp
    show ?thesis
    proof (cases "fl_end s a = unat b")
      case True
      then have e4: "fl_end s4 a = unat b" using \<open>fl_end s4 a = fl_end s a\<close> by simp
      have inv4': "fl_inv memory sz s4 (as' @ a # b # ?cs4) (L - {ptr})"
        using inv4 by (simp add: as')
      from fl_absorb_inv(1,2) [OF inv4' e4] True walk cond free_eq by4
      show ?thesis by (simp add: mp_def as')
    next
      case False
      then show ?thesis using walk cond inv4 by4 free_eq by (simp add: mp_def as')
    qed
  qed
qed

lemma fl_need_bounds:
  assumes "fl_size_ok n"
  shows "unat (align_up n alignof_max_align_t + sizeof_block_header) =
           unat (align_up n 16) + 24"
    and "unat n + 24 \<le> unat (align_up n alignof_max_align_t + sizeof_block_header)"
    and "n \<noteq> 0 \<Longrightarrow> 40 \<le> unat (align_up n alignof_max_align_t + sizeof_block_header)"
proof -
  from assms have ok: "unat n + 15 < 2 ^ 64" "unat n + 39 < 2 ^ 64"
    by (simp_all add: fl_size_ok_def)
  note b = align_up_16_bounds [OF ok(1)]
  have "unat (align_up n 16) + unat (24 :: size_t) < 2 ^ LENGTH(64)"
    using b(2) ok(2) by simp
  then have "unat (align_up n 16 + 24) = unat (align_up n 16) + unat (24 :: size_t)"
    by (rule unat_add_lem [THEN iffD1])
  then show e: "unat (align_up n alignof_max_align_t + sizeof_block_header) =
           unat (align_up n 16) + 24"
    by (simp add: alignof_max_align_t_def sizeof_block_header_def)
  show "unat n + 24 \<le> unat (align_up n alignof_max_align_t + sizeof_block_header)"
    using b(1) by (simp add: e)
  show "40 \<le> unat (align_up n alignof_max_align_t + sizeof_block_header)" if "n \<noteq> 0"
    using b(3) [OF that] by (simp add: e)
qed

lemma fl_alloc_null:
  assumes inv: "fl_inv memory sz s xs L"
    and no: "n = 0 \<or> (\<forall>x\<in>set xs. \<not> align_up n alignof_max_align_t + sizeof_block_header \<le> blk_size s x)"
  shows "fl_allocator_alloc s n = Some (0, s)"
proof (cases "n = 0")
  case True
  then show ?thesis by (simp add: fl_allocator_alloc_def)
next
  case False
  with no have "\<forall>x\<in>set xs. \<not> fits s (align_up n alignof_max_align_t + sizeof_block_header) x"
    by (simp add: fits_def)
  with fl_inv_chain_facts(1) [OF inv] False show ?thesis
    by (simp add: fl_allocator_alloc_def Let_def fl_alloc_loop_none)
qed

lemma fl_alloc_hit:
  assumes inv: "fl_inv memory sz s (as @ q # cs) L" and n: "n \<noteq> 0"
    and no: "\<forall>a\<in>set as. \<not> align_up n alignof_max_align_t + sizeof_block_header \<le> blk_size s a"
    and fit: "align_up n alignof_max_align_t + sizeof_block_header \<le> blk_size s q"
  shows "fl_allocator_alloc s n =
           Some (fl_take s (align_up n alignof_max_align_t + sizeof_block_header)
             (fl_link_after Head as) q)"
proof -
  let ?need = "align_up n alignof_max_align_t + sizeof_block_header"
  from inv have "blk_free s q \<noteq> 0" by (simp add: fl_inv_def)
  with fit have "fits s ?need q" by (simp add: fits_def)
  moreover from no have "\<forall>a\<in>set as. \<not> fits s ?need a" by (simp add: fits_def)
  ultimately show ?thesis
    using fl_inv_chain_facts(1) [OF inv] n
    by (simp add: fl_allocator_alloc_def Let_def fl_alloc_loop_found)
qed

lemma fl_alloc_inv:
  assumes inv: "fl_inv memory sz s xs L" and ok: "fl_size_ok n"
  shows "\<exists>p s' xs'. fl_allocator_alloc s n = Some (p, s') \<and>
           fl_inv memory sz s' xs' (if p = 0 then L else insert p L) \<and> (p = 0 \<longrightarrow> s' = s)"
proof -
  let ?need = "align_up n alignof_max_align_t + sizeof_block_header"
  show ?thesis
  proof (cases "n = 0 \<or> (\<forall>x\<in>set xs. \<not> ?need \<le> blk_size s x)")
    case True
    from fl_alloc_null [OF inv True] inv show ?thesis by auto
  next
    case False
    then have n: "n \<noteq> 0" and "\<exists>x\<in>set xs. ?need \<le> blk_size s x" by auto
    from split_list_first_prop [OF this(2)]
    obtain as q cs where xs: "xs = as @ q # cs" and fit: "?need \<le> blk_size s q"
      and no: "\<forall>a\<in>set as. \<not> ?need \<le> blk_size s a"
      by blast
    note inv' = inv [unfolded xs]
    note t = fl_take_inv [OF inv' fit fl_need_bounds(3) [OF ok n]]
    have "q + 24 \<noteq> 0"
      using fl_block_facts(8) [OF inv', of q] by (simp add: fl_blocks_def)
    with fl_alloc_hit [OF inv' n no fit] t(1,2) show ?thesis
      by (cases "fl_take s ?need (fl_link_after Head as) q") auto
  qed
qed

lemma fl_free_inv:
  assumes inv: "fl_inv memory sz s xs L" and ptr: "ptr \<in> L"
  shows "\<exists>s' xs'. fl_allocator_free s ptr = Some s' \<and> fl_inv memory sz s' xs' (L - {ptr})"
  using fl_free_shape [OF inv ptr] by blast

lemma fl_reach_inv: "fl_reach memory sz s L \<Longrightarrow> \<exists>xs. fl_inv memory sz s xs L"
proof (induction rule: fl_reach.induct)
  case (fl_reach_create m)
  then show ?case by (blast intro: fl_create_inv)
next
  case (fl_reach_alloc s L n p s')
  then obtain xs where inv: "fl_inv memory sz s xs L" by blast
  from fl_alloc_inv [OF inv fl_reach_alloc.hyps(2)] fl_reach_alloc.hyps(3,4)
  show ?case by auto
next
  case (fl_reach_alloc_null s L n s')
  then obtain xs where inv: "fl_inv memory sz s xs L" by blast
  from fl_alloc_inv [OF inv fl_reach_alloc_null.hyps(2)] fl_reach_alloc_null.hyps(3)
  show ?case by auto
next
  case (fl_reach_free s L p s')
  then obtain xs where inv: "fl_inv memory sz s xs L" by blast
  from fl_free_inv [OF inv fl_reach_free.hyps(2)] fl_reach_free.hyps(3)
  show ?case by auto
next
  case (fl_reach_free_null s L s')
  then show ?case by (simp add: fl_allocator_free_def)
qed

lemma fl_free_spec:
  assumes inv: "fl_inv memory sz s xs L" and ptr: "ptr \<in> L"
  defines "b \<equiv> ptr_to_block ptr"
  shows "\<exists>s' xs' f. fl_allocator_free s ptr = Some s' \<and> fl_inv memory sz s' xs' (L - {ptr}) \<and>
     f \<in> set xs' \<and> unat f \<le> unat b \<and> fl_end s b \<le> fl_end s' f \<and>
     (\<forall>a\<in>set xs. fl_end s a = unat b \<longrightarrow> f = a) \<and>
     (\<forall>c\<in>set xs. fl_end s b = unat c \<longrightarrow> fl_end s c \<le> fl_end s' f) \<and>
     (\<forall>q\<in>L - {ptr}. fl_bytes s' (ptr_to_block q) = fl_bytes s (ptr_to_block q))"
proof -
  define as where "as = takeWhile (\<lambda>a. a < b) xs"
  define cs where "cs = dropWhile (\<lambda>a. a < b) xs"
  define mn where "mn \<longleftrightarrow> cs \<noteq> [] \<and> fl_end s b = unat (hd cs)"
  define mp where "mp \<longleftrightarrow> as \<noteq> [] \<and> fl_end s (last as) = unat b"
  define by4 where
    "by4 = (if mn then (fl_bytes s)(b := fl_bytes s b + fl_bytes s (hd cs)) else fl_bytes s)"
  define xs' where "xs' = (if mp then as else as @ [b]) @ (if mn then tl cs else cs)"
  define f where "f = (if mp then last as else b)"
  from fl_free_shape [OF inv ptr]
  obtain s' where fr: "fl_allocator_free s ptr = Some s'"
    and inv': "fl_inv memory sz s' xs' (L - {ptr})"
    and by': "fl_bytes s' = (if mp then by4(last as := by4 (last as) + by4 b) else by4)"
    unfolding xs'_def by4_def mp_def mn_def as_def cs_def b_def by blast
  have xs: "xs = as @ cs" by (simp add: as_def cs_def)
  have lt: "\<forall>a\<in>set as. a < b" by (auto simp: as_def dest: set_takeWhileD)
  have ge: "cs = [] \<or> \<not> hd cs < b"
    using hd_dropWhile [of "\<lambda>a. a < b" xs] by (auto simp: cs_def)
  from inv have g: "geom 24 (unat memory + 24) (unat memory + unat sz) (fl_blocks xs L) (fl_bytes s)"
    and live: "set xs \<inter> ptr_to_block ` L = {}" and so: "sorted_wrt (<) xs"
    by (simp_all add: fl_inv_def)
  have bB: "b \<in> fl_blocks xs L" using ptr by (auto simp: fl_blocks_def b_def)
  have xB: "a \<in> fl_blocks xs L" if "a \<in> set xs" for a using that by (simp add: fl_blocks_def)
  have bx: "b \<notin> set xs" using live ptr by (auto simp: b_def)
  have pos: "0 < fl_bytes s a" if "a \<in> fl_blocks xs L" for a
    using geom_bounds [OF g that] by simp
  have la: "last as \<in> set as" if "as \<noteq> []" using that by simp
  have lab: "last as \<noteq> b" if "as \<noteq> []" using la [OF that] bx xs by auto
  have b4: "fl_bytes s b \<le> by4 b" by (simp add: by4_def)
  have b4l: "by4 (last as) = fl_bytes s (last as)" if "as \<noteq> []"
    using lab [OF that] by (simp add: by4_def)
  have endf: "fl_end s' f = unat b + by4 b"
  proof (cases mp)
    case True
    then have ne: "as \<noteq> []" and e: "fl_end s (last as) = unat b" by (simp_all add: mp_def)
    show ?thesis using True e b4l [OF ne]
      by (simp add: f_def fl_end_def by')
  next
    case False
    then show ?thesis by (simp add: f_def fl_end_def by')
  qed
  have fin: "f \<in> set xs'"
    by (cases mp) (auto simp: f_def xs'_def mp_def)
  have fle: "unat f \<le> unat b"
  proof (cases mp)
    case True
    then have "last as < b" using lt la by (simp add: mp_def)
    then show ?thesis using True by (simp add: f_def word_less_nat_alt)
  next
    case False
    then show ?thesis by (simp add: f_def)
  qed
  have cover: "fl_end s b \<le> fl_end s' f" using endf b4 by (simp add: fl_end_def)
  have prev: "f = a" if a: "a \<in> set xs" and e: "fl_end s a = unat b" for a
  proof -
    have ab: "unat a < unat b" using e pos [OF xB [OF a]] by (simp add: fl_end_def)
    then have "a < b" by (simp add: word_less_nat_alt)
    have "a \<in> set as"
    proof (rule ccontr)
      assume "a \<notin> set as"
      with a xs have ac: "a \<in> set cs" by auto
      then have ne: "cs \<noteq> []" by auto
      from so have "sorted_wrt (<) cs" by (simp add: xs sorted_wrt_append)
      with ac ne have "hd cs \<le> a" by (cases cs) auto
      with ge ne \<open>a < b\<close> show False by auto
    qed
    then have ne: "as \<noteq> []" by auto
    have "a = last as"
    proof (rule ccontr)
      assume n: "a \<noteq> last as"
      from so have sa: "sorted_wrt (<) as" by (simp add: xs sorted_wrt_append)
      from ne obtain ys where as: "as = ys @ [last as]" by (metis append_butlast_last_id)
      with \<open>a \<in> set as\<close> n have "a \<in> set ys" by (metis Un_iff empty_iff empty_set set_ConsD set_append)
      with sa as have "a < last as" by (metis sorted_wrt_append list.set_intros(1))
      then have "unat a < unat (last as)" by (simp add: word_less_nat_alt)
      from geom_order [OF g xB [OF a] xB this] la [OF ne] xs
      have "fl_end s a \<le> unat (last as)" by (auto simp: fl_end_def)
      moreover have "unat (last as) < unat b"
        using lt la [OF ne] by (simp add: word_less_nat_alt)
      ultimately show False using e by simp
    qed
    with ne e have mp by (simp add: mp_def)
    then show ?thesis using \<open>a = last as\<close> by (simp add: f_def)
  qed
  have nxt: "fl_end s c \<le> fl_end s' f" if c: "c \<in> set xs" and e: "fl_end s b = unat c" for c
  proof -
    have bc: "unat b < unat c" using e pos [OF bB] by (simp add: fl_end_def)
    then have "\<not> c < b" by (simp add: word_less_nat_alt)
    with lt c xs have cc: "c \<in> set cs" by auto
    then have ne: "cs \<noteq> []" by auto
    from so have "sorted_wrt (<) cs" by (simp add: xs sorted_wrt_append)
    with cc ne have hc: "hd cs \<le> c" by (cases cs) auto
    have hx: "hd cs \<in> set xs" using ne xs by simp
    have "hd cs \<noteq> b" using hx bx by auto
    moreover have "b \<le> hd cs" using ge ne by auto
    ultimately have "unat b < unat (hd cs)"
      by (simp add: word_le_nat_alt word_unat_eq_iff)
    from geom_order [OF g bB xB [OF hx] this] have "fl_end s b \<le> unat (hd cs)"
      by (simp add: fl_end_def)
    with hc e have "unat (hd cs) = unat c" by (simp add: word_le_nat_alt)
    then have h: "hd cs = c" by (simp add: word_unat_eq_iff)
    with ne e have mn by (simp add: mn_def)
    then have "by4 b = fl_bytes s b + fl_bytes s c" by (simp add: by4_def h)
    then show ?thesis using endf e by (simp add: fl_end_def)
  qed
  have keep: "fl_bytes s' (ptr_to_block q) = fl_bytes s (ptr_to_block q)" if q: "q \<in> L - {ptr}" for q
  proof -
    from q have "ptr_to_block q \<noteq> b" by (auto simp: b_def dest: ptr_to_block_inj)
    moreover have "ptr_to_block q \<notin> set xs" using q live by auto
    then have "as \<noteq> [] \<Longrightarrow> ptr_to_block q \<noteq> last as" using la xs by auto
    ultimately show ?thesis by (auto simp: by' by4_def mp_def)
  qed
  from fr inv' fin fle cover prev nxt keep show ?thesis by blast
qed

section \<open>Buddy allocator: the invariant is kept\<close>

lemma mk_store_fields [simp]:
  "hdr (mk_store s pp v) = hdr s"
  "mk_base (mk_store s pp v) = mk_base s"
  "mk_size (mk_store s pp v) = mk_size s"
  "min_order (mk_store s pp v) = min_order s"
  "max_order (mk_store s pp v) = max_order s"
  by (cases pp; simp)+

lemma mk_link_after_snoc [simp]: "mk_link_after pp (as @ [a]) = NodeNext a"
  by (induction as arbitrary: pp) auto

lemma mk_store_slot_after:
  "free_lists (mk_store s (mk_link_after (Slot k) as) v) =
     (if as = [] then (free_lists s)(k := v) else free_lists s)"
  "node_next (mk_store s (mk_link_after (Slot k) as) v) =
     (if as = [] then node_next s else (node_next s)(last as := v))"
  by (cases as rule: rev_cases; simp)+

lemma list_push_fields [simp]:
  "node_next (list_push s (Slot k) n) = (node_next s)(n := free_lists s k)"
  "free_lists (list_push s (Slot k) n) = (free_lists s)(k := n)"
  "hdr (list_push s pp n) = hdr s"
  "mk_base (list_push s pp n) = mk_base s"
  "mk_size (list_push s pp n) = mk_size s"
  "min_order (list_push s pp n) = min_order s"
  "max_order (list_push s pp n) = max_order s"
  by (simp_all add: list_push_def Let_def)

lemma scan_buddy_chain:
  "chain (node_next s) it xs \<Longrightarrow> scan_buddy s it b = Some (b \<in> set xs)"
proof (induction xs arbitrary: it)
  case Nil
  then show ?case by (subst scan_buddy.simps) simp
next
  case (Cons x xs)
  then show ?case by (subst scan_buddy.simps) auto
qed

lemma list_remove_loop_chain:
  "chain (node_next s) p (as @ n # cs) \<Longrightarrow> n \<notin> set as \<Longrightarrow>
   list_remove_loop s pp p n = Some (1, mk_store s (mk_link_after pp as) (node_next s n))"
proof (induction as arbitrary: p pp)
  case Nil
  then show ?case by (subst list_remove_loop.simps) simp
next
  case (Cons a as)
  then show ?case by (subst list_remove_loop.simps) auto
qed

lemma list_remove_chain:
  assumes ch: "chain (node_next s) (free_lists s k) (as @ n # cs)"
  defines "s' \<equiv> mk_store s (mk_link_after (Slot k) as) (node_next s n)"
  shows "list_remove s (Slot k) n = Some (1, s')"
    and "chain (node_next s') (free_lists s' k) (as @ cs)"
    and "\<forall>j. j \<noteq> k \<longrightarrow> free_lists s' j = free_lists s j"
    and "\<forall>x. x \<notin> set as \<longrightarrow> node_next s' x = node_next s x"
proof -
  from chain_distinct [OF ch] have dis: "distinct as" "n \<notin> set as" "n \<notin> set cs"
    "set as \<inter> set cs = {}"
    by auto
  show "list_remove s (Slot k) n = Some (1, s')"
    unfolding list_remove_def s'_def using ch dis(2)
    by (simp add: list_remove_loop_chain)
  from ch have seg: "seg (node_next s) (free_lists s k) as n"
    and tl: "chain (node_next s) (node_next s n) cs"
    by (auto simp: seg_append)
  show "chain (node_next s') (free_lists s' k) (as @ cs)"
  proof (cases as rule: rev_cases)
    case Nil
    with tl show ?thesis by (simp add: s'_def)
  next
    case (snoc bs a)
    with seg dis have "seg (node_next s) (free_lists s k) bs a" "a \<noteq> 0" "a \<notin> set bs" "a \<notin> set cs"
      by (auto simp: seg_append)
    with tl show ?thesis
      using snoc by (simp add: s'_def seg_append seg_upd)
  qed
  show "\<forall>j. j \<noteq> k \<longrightarrow> free_lists s' j = free_lists s j"
    by (simp add: s'_def mk_store_slot_after)
  show "\<forall>x. x \<notin> set as \<longrightarrow> node_next s' x = node_next s x"
    by (cases as rule: rev_cases) (auto simp: s'_def)
qed

lemma xor_pow2_cases:
  fixes x :: "'a::len word"
  shows "x XOR 2 ^ k = x + 2 ^ k \<or> x XOR 2 ^ k = x - 2 ^ k"
proof -
  have "x XOR 2 ^ k = flip_bit k x"
    by (simp add: flip_bit_eq_xor)
  also have "\<dots> = (if bit x k then unset_bit k x else set_bit k x)"
    by (simp add: flip_bit_eq_if)
  finally show ?thesis
    by (auto simp: set_bit_eq unset_bit_eq)
qed

lemma buddy_addr_cases:
  "buddy_addr s b k = b + pow2 k \<or> buddy_addr s b k = b - pow2 k"
  using xor_pow2_cases [of "b - mk_base s" k]
  by (auto simp: buddy_addr_def Let_def pow2_def)

lemma buddy_addr_involution: "buddy_addr s (buddy_addr s b k) k = b"
  by (simp add: buddy_addr_def Let_def xor.assoc)

lemma tag_of_add [simp]: "tag_of (b + 2) = b"
  by (simp add: tag_of_def sizeof_uint16_t_def)

lemma tag_of_inj: "tag_of p = tag_of q \<Longrightarrow> p = q"
  by (simp add: tag_of_def)

lemma ptr_of_tag [simp]: "tag_of p + 2 = p"
  by (simp add: tag_of_def sizeof_uint16_t_def)

lemma mk_free_push: "k \<le> mo \<Longrightarrow> mk_free (F(k := b # F k)) mo = insert b (mk_free F mo)"
  by (auto simp: mk_free_def split: if_splits)

lemma mk_free_unlink:
  assumes k: "k \<le> mo" and Fk: "F k = as @ n # cs" and dis: "distinct (F k)"
    and other: "\<forall>j\<le>mo. j \<noteq> k \<longrightarrow> n \<notin> set (F j)"
  shows "mk_free F mo = insert n (mk_free (F(k := as @ cs)) mo)"
    and "n \<notin> mk_free (F(k := as @ cs)) mo"
proof -
  define R where "R = (\<Union>j\<in>{..mo} - {k}. set (F j))"
  have 1: "mk_free F mo = set (F k) \<union> R"
    using k by (auto simp: mk_free_def R_def)
  have 2: "mk_free (F(k := as @ cs)) mo = set (as @ cs) \<union> R"
    using k by (auto simp: mk_free_def R_def split: if_splits)
  show "mk_free F mo = insert n (mk_free (F(k := as @ cs)) mo)"
    by (auto simp: 1 2 Fk)
  have "n \<notin> R" using other by (auto simp: R_def)
  moreover have "n \<notin> set (as @ cs)" using dis Fk by auto
  ultimately show "n \<notin> mk_free (F(k := as @ cs)) mo"
    by (simp add: 2)
qed

lemma mk_block_facts:
  assumes inv: "mk_inv memory sz s F od L H" and b: "b \<in> mk_blocks F (max_order s) L H"
  shows "unat memory + 544 \<le> unat b" "unat b + 2 ^ od b \<le> unat memory + unat sz"
    "unat b + 2 ^ od b < 2 ^ 64" "4 \<le> od b" "od b \<le> max_order s" "od b \<le> 20"
    "16 dvd unat b" "b \<noteq> 0" "unat (b + 2) = unat b + 2" "b + 2 \<noteq> 0"
    "unat (pow2 (od b)) = 2 ^ od b" "unat (b + pow2 (od b)) = unat b + 2 ^ od b"
proof -
  from inv have ok: "mk_arena_ok memory sz" and mo: "max_order s \<le> 20"
    and g: "geom 16 (unat memory + 544) (unat memory + unat sz)
        (mk_blocks F (max_order s) L H) (\<lambda>b. 2 ^ od b)"
    and bd: "\<forall>b\<in>mk_blocks F (max_order s) L H. 4 \<le> od b \<and> od b \<le> max_order s \<and> 16 dvd unat b"
    by (simp_all add: mk_inv_def)
  from geom_bounds [OF g b]
  have 1: "unat memory + 544 \<le> unat b" and 2: "unat b + 2 ^ od b \<le> unat memory + unat sz"
    and 16: "(16::nat) \<le> 2 ^ od b"
    by simp_all
  show "unat memory + 544 \<le> unat b" by (rule 1)
  show "unat b + 2 ^ od b \<le> unat memory + unat sz" by (rule 2)
  from ok have "unat memory + unat sz < 2 ^ 64" by (simp add: mk_arena_ok_def)
  with 2 show 3: "unat b + 2 ^ od b < 2 ^ 64" by simp
  from bd b show 4: "4 \<le> od b" and 5: "od b \<le> max_order s" and "16 dvd unat b" by auto
  from 5 mo show 6: "od b \<le> 20" by simp
  from 1 show "b \<noteq> 0" by (auto simp: unat_eq_zero)
  from 3 16 have "unat b + unat (2 :: addr) < 2 ^ LENGTH(64)" by simp
  then show 9: "unat (b + 2) = unat b + 2" by (simp add: unat_add_lem [THEN iffD1])
  then show "b + 2 \<noteq> 0" by (metis add_is_0 unat_0 zero_neq_numeral)
  from 6 show p: "unat (pow2 (od b)) = 2 ^ od b" by (simp add: pow2_unat)
  from 3 p have "unat b + unat (pow2 (od b)) < 2 ^ LENGTH(64)" by simp
  then show "unat (b + pow2 (od b)) = unat b + 2 ^ od b"
    by (simp add: unat_add_lem [THEN iffD1] p)
qed

lemma mk_inv_chain:
  assumes "mk_inv memory sz s F od L H" and "k \<le> max_order s"
  shows "chain (node_next s) (free_lists s k) (F k)" "distinct (F k)" "\<forall>b\<in>set (F k). od b = k"
    "set (F k) \<subseteq> mk_free F (max_order s)"
  using assms chain_distinct [of "node_next s" "free_lists s k" "F k"]
  by (auto simp: mk_inv_def mk_free_def)

lemma mk_free_od:
  assumes "mk_inv memory sz s F od L H" and "b \<in> mk_free F (max_order s)"
  shows "od b \<le> max_order s \<and> b \<in> set (F (od b))"
  using assms by (auto simp: mk_inv_def mk_free_def)

lemma mk_invI:
  assumes "mk_arena_ok memory sz" "mk_base s = memory" "min_order s = 4"
    "4 \<le> max_order s" "max_order s \<le> 20"
    and "\<And>k. k \<le> max_order s \<Longrightarrow>
          chain (node_next s) (free_lists s k) (F k) \<and> (\<forall>b\<in>set (F k). od b = k)"
    and "\<And>p. p \<in> L \<Longrightarrow> unat (hdr s (tag_of p)) = od (tag_of p)"
    and "mk_free F (max_order s) \<inter> tag_of ` L = {}"
    and "H \<inter> (mk_free F (max_order s) \<union> tag_of ` L) = {}"
    and "geom 16 (unat memory + 544) (unat memory + unat sz)
          (mk_blocks F (max_order s) L H) (\<lambda>b. 2 ^ od b)"
    and "\<And>b. b \<in> mk_blocks F (max_order s) L H \<Longrightarrow>
          4 \<le> od b \<and> od b \<le> max_order s \<and> 16 dvd unat b"
  shows "mk_inv memory sz s F od L H"
  unfolding mk_inv_def using assms by blast

lemma mk_invD:
  assumes "mk_inv memory sz s F od L H"
  shows "mk_arena_ok memory sz" "mk_base s = memory" "min_order s = 4"
    "4 \<le> max_order s" "max_order s \<le> 20"
    "\<And>p. p \<in> L \<Longrightarrow> unat (hdr s (tag_of p)) = od (tag_of p)"
    "mk_free F (max_order s) \<inter> tag_of ` L = {}"
    "H \<inter> (mk_free F (max_order s) \<union> tag_of ` L) = {}"
    "geom 16 (unat memory + 544) (unat memory + unat sz)
          (mk_blocks F (max_order s) L H) (\<lambda>b. 2 ^ od b)"
    "\<And>b. b \<in> mk_blocks F (max_order s) L H \<Longrightarrow>
          4 \<le> od b \<and> od b \<le> max_order s \<and> 16 dvd unat b"
  using assms unfolding mk_inv_def by blast+

text \<open>Blocks change hands (lists, live set, in hand) while their orders stay.\<close>

lemma mk_inv_move:
  assumes inv: "mk_inv memory sz s F od L H"
    and static: "mk_base s' = mk_base s" "min_order s' = min_order s" "max_order s' = max_order s"
    and chains: "\<And>k. k \<le> max_order s \<Longrightarrow>
          chain (node_next s') (free_lists s' k) (F' k) \<and> (\<forall>b\<in>set (F' k). od b = k)"
    and tags: "\<And>p. p \<in> L' \<Longrightarrow> unat (hdr s' (tag_of p)) = od (tag_of p)"
    and disj1: "mk_free F' (max_order s) \<inter> tag_of ` L' = {}"
    and disj2: "H' \<inter> (mk_free F' (max_order s) \<union> tag_of ` L') = {}"
    and sub: "mk_blocks F' (max_order s) L' H' \<subseteq> mk_blocks F (max_order s) L H"
  shows "mk_inv memory sz s' F' od L' H'"
proof (rule mk_invI)
  note d = mk_invD [OF inv]
  show "mk_arena_ok memory sz" by (rule d)
  show "mk_base s' = memory" "min_order s' = 4" "4 \<le> max_order s'" "max_order s' \<le> 20"
    using d static by simp_all
  show "chain (node_next s') (free_lists s' k) (F' k) \<and> (\<forall>b\<in>set (F' k). od b = k)"
    if "k \<le> max_order s'" for k
    using that chains static by simp
  show "unat (hdr s' (tag_of p)) = od (tag_of p)" if "p \<in> L'" for p
    using that by (rule tags)
  show "mk_free F' (max_order s') \<inter> tag_of ` L' = {}"
    using disj1 static by simp
  show "H' \<inter> (mk_free F' (max_order s') \<union> tag_of ` L') = {}"
    using disj2 static by simp
  show "geom 16 (unat memory + 544) (unat memory + unat sz)
          (mk_blocks F' (max_order s') L' H') (\<lambda>b. 2 ^ od b)"
    using geom_sub [OF d(9) sub] static by simp
  show "4 \<le> od b \<and> od b \<le> max_order s' \<and> 16 dvd unat b"
    if "b \<in> mk_blocks F' (max_order s') L' H'" for b
    using that sub d(10) [of b] static by auto
qed

lemma mk_push_inv:
  assumes inv: "mk_inv memory sz s F od L H" and b: "b \<in> H"
  shows "mk_inv memory sz (list_push s (Slot (od b)) b) (F(od b := b # F (od b))) od L (H - {b})"
proof -
  let ?k = "od b" and ?mo = "max_order s"
  let ?s' = "list_push s (Slot ?k) b"
  let ?F' = "F(?k := b # F ?k)"
  have bB: "b \<in> mk_blocks F ?mo L H" using b by (simp add: mk_blocks_def)
  note bf = mk_block_facts [OF inv bB]
  from inv have HF: "H \<inter> (mk_free F ?mo \<union> tag_of ` L) = {}"
    and FL: "mk_free F ?mo \<inter> tag_of ` L = {}"
    by (simp_all add: mk_inv_def)
  have b_free: "b \<notin> mk_free F ?mo" and b_live: "b \<notin> tag_of ` L" using HF b by auto
  have chains: "chain (node_next ?s') (free_lists ?s' j) (?F' j) \<and> (\<forall>x\<in>set (?F' j). od x = j)"
    if j: "j \<le> ?mo" for j
  proof -
    note c = mk_inv_chain [OF inv j]
    have "b \<notin> set (F j)" using c(4) b_free by auto
    then have "chain (node_next ?s') (free_lists s j) (F j)"
      using c(1) by (simp add: seg_upd)
    then show ?thesis using c(3) bf(8) by auto
  qed
  have free': "mk_free ?F' ?mo = insert b (mk_free F ?mo)"
    using bf(5) by (rule mk_free_push)
  have B': "mk_blocks ?F' ?mo L (H - {b}) = mk_blocks F ?mo L H"
    using b by (auto simp: mk_blocks_def free')
  show ?thesis
  proof (rule mk_inv_move [OF inv])
    show "mk_base ?s' = mk_base s" "min_order ?s' = min_order s" "max_order ?s' = max_order s"
      by simp_all
    show "chain (node_next ?s') (free_lists ?s' j) (?F' j) \<and> (\<forall>x\<in>set (?F' j). od x = j)"
      if "j \<le> ?mo" for j
      using that by (rule chains)
    show "unat (hdr ?s' (tag_of p)) = od (tag_of p)" if "p \<in> L" for p
      using mk_invD(6) [OF inv that] by simp
    show "mk_free ?F' ?mo \<inter> tag_of ` L = {}"
      using FL b_live by (simp add: free')
    show "(H - {b}) \<inter> (mk_free ?F' ?mo \<union> tag_of ` L) = {}"
      using HF by (auto simp: free')
    show "mk_blocks ?F' ?mo L (H - {b}) \<subseteq> mk_blocks F ?mo L H"
      by (simp add: B')
  qed
qed

lemma mk_unlink_inv:
  assumes inv: "mk_inv memory sz s F od L H" and k: "k \<le> max_order s"
    and Fk: "F k = as @ n # cs"
  shows "mk_inv memory sz (mk_store s (mk_link_after (Slot k) as) (node_next s n))
           (F(k := as @ cs)) od L (insert n H)"
    and "list_remove s (Slot k) n =
           Some (1, mk_store s (mk_link_after (Slot k) as) (node_next s n))"
proof -
  let ?mo = "max_order s"
  let ?s' = "mk_store s (mk_link_after (Slot k) as) (node_next s n)"
  let ?F' = "F(k := as @ cs)"
  note ck = mk_inv_chain [OF inv k]
  note lr = list_remove_chain [OF ck(1) [unfolded Fk]]
  show "list_remove s (Slot k) n = Some (1, ?s')" by (rule lr(1))
  from inv have HF: "H \<inter> (mk_free F ?mo \<union> tag_of ` L) = {}"
    and FL: "mk_free F ?mo \<inter> tag_of ` L = {}"
    by (simp_all add: mk_inv_def)
  have odn: "od n = k" using ck(3) Fk by simp
  have other: "\<forall>j\<le>?mo. j \<noteq> k \<longrightarrow> n \<notin> set (F j)"
    using mk_inv_chain(3) [OF inv] odn by auto
  note fu = mk_free_unlink [OF k Fk ck(2) other]
  have chains: "chain (node_next ?s') (free_lists ?s' j) (?F' j) \<and> (\<forall>x\<in>set (?F' j). od x = j)"
    if j: "j \<le> ?mo" for j
  proof (cases "j = k")
    case True
    then show ?thesis using lr(2) ck(3) Fk by auto
  next
    case False
    note c = mk_inv_chain [OF inv j]
    have "\<forall>x\<in>set (F j). node_next ?s' x = node_next s x"
    proof
      fix x assume "x \<in> set (F j)"
      then have "od x = j" using c(3) by simp
      then have "x \<notin> set as" using False ck(3) Fk by auto
      then show "node_next ?s' x = node_next s x" using lr(4) by simp
    qed
    with c(1) have "chain (node_next ?s') (free_lists s j) (F j)" by (rule seg_frame)
    then show ?thesis using False lr(3) c(3) by simp
  qed
  have B': "mk_blocks ?F' ?mo L (insert n H) = mk_blocks F ?mo L H"
    using fu(1) by (auto simp: mk_blocks_def)
  have n_live: "n \<notin> tag_of ` L" using FL fu(1) by auto
  show "mk_inv memory sz ?s' ?F' od L (insert n H)"
  proof (rule mk_inv_move [OF inv])
    show "mk_base ?s' = mk_base s" "min_order ?s' = min_order s" "max_order ?s' = max_order s"
      by simp_all
    show "chain (node_next ?s') (free_lists ?s' j) (?F' j) \<and> (\<forall>x\<in>set (?F' j). od x = j)"
      if "j \<le> ?mo" for j
      using that by (rule chains)
    show "unat (hdr ?s' (tag_of p)) = od (tag_of p)" if "p \<in> L" for p
      using mk_invD(6) [OF inv that] by simp
    show "mk_free ?F' ?mo \<inter> tag_of ` L = {}"
      using FL fu(1) by auto
    show "insert n H \<inter> (mk_free ?F' ?mo \<union> tag_of ` L) = {}"
      using HF fu n_live by auto
    show "mk_blocks ?F' ?mo L (insert n H) \<subseteq> mk_blocks F ?mo L H"
      by (simp add: B')
  qed
qed

lemma mk_drop_inv:
  assumes inv: "mk_inv memory sz s F od L H"
  shows "mk_inv memory sz s F od L (H - X)"
proof (rule mk_inv_move [OF inv])
  note d = mk_invD [OF inv]
  show "chain (node_next s) (free_lists s k) (F k) \<and> (\<forall>b\<in>set (F k). od b = k)"
    if "k \<le> max_order s" for k
    using mk_inv_chain [OF inv that] by simp
  show "unat (hdr s (tag_of p)) = od (tag_of p)" if "p \<in> L" for p
    using d(6) that by simp
  show "mk_free F (max_order s) \<inter> tag_of ` L = {}" by (rule d)
  show "(H - X) \<inter> (mk_free F (max_order s) \<union> tag_of ` L) = {}" using d(8) by auto
  show "mk_blocks F (max_order s) L (H - X) \<subseteq> mk_blocks F (max_order s) L H"
    by (auto simp: mk_blocks_def)
qed simp_all

lemma mk_take_inv:
  assumes inv: "mk_inv memory sz s F od L {}" and p: "p \<in> L"
  shows "mk_inv memory sz s F od (L - {p}) {tag_of p}"
proof (rule mk_inv_move [OF inv])
  note d = mk_invD [OF inv]
  show "chain (node_next s) (free_lists s k) (F k) \<and> (\<forall>b\<in>set (F k). od b = k)"
    if "k \<le> max_order s" for k
    using mk_inv_chain [OF inv that] by simp
  show "unat (hdr s (tag_of q)) = od (tag_of q)" if "q \<in> L - {p}" for q
    using d(6) that by simp
  show "mk_free F (max_order s) \<inter> tag_of ` (L - {p}) = {}" using d(7) by auto
  show "{tag_of p} \<inter> (mk_free F (max_order s) \<union> tag_of ` (L - {p})) = {}"
    using d(7) p by (auto dest: tag_of_inj)
  show "mk_blocks F (max_order s) (L - {p}) {tag_of p} \<subseteq> mk_blocks F (max_order s) L {}"
    using p by (auto simp: mk_blocks_def)
qed simp_all

lemma mk_give_inv:
  assumes inv: "mk_inv memory sz s F od L {b}"
  shows "mk_inv memory sz (s\<lparr>hdr := (hdr s)(b := of_nat (od b))\<rparr>) F od (insert (b + 2) L) {}"
proof (rule mk_inv_move [OF inv])
  let ?s' = "s\<lparr>hdr := (hdr s)(b := of_nat (od b))\<rparr>"
  note d = mk_invD [OF inv]
  have bB: "b \<in> mk_blocks F (max_order s) L {b}" by (simp add: mk_blocks_def)
  note bf = mk_block_facts [OF inv bB]
  show "chain (node_next ?s') (free_lists ?s' k) (F k) \<and> (\<forall>b\<in>set (F k). od b = k)"
    if "k \<le> max_order s" for k
    using mk_inv_chain [OF inv that] by simp
  have tag: "unat (of_nat (od b) :: 16 word) = od b"
    using bf(6) by (simp add: unat_of_nat)
  show "unat (hdr ?s' (tag_of q)) = od (tag_of q)" if "q \<in> insert (b + 2) L" for q
  proof (cases "q = b + 2")
    case True
    then show ?thesis using tag by simp
  next
    case False
    with that have qL: "q \<in> L" by simp
    then have "tag_of q \<noteq> b" using d(8) by auto
    then show ?thesis using d(6) [OF qL] by simp
  qed
  show "mk_free F (max_order s) \<inter> tag_of ` insert (b + 2) L = {}" using d(7,8) by auto
  show "{} \<inter> (mk_free F (max_order s) \<union> tag_of ` insert (b + 2) L) = {}" by simp
  show "mk_blocks F (max_order s) (insert (b + 2) L) {} \<subseteq> mk_blocks F (max_order s) L {b}"
    by (auto simp: mk_blocks_def)
qed simp_all

lemma mk_split_inv:
  assumes inv: "mk_inv memory sz s F od L H" and b: "b \<in> H"
    and c: "od b = Suc c" "4 \<le> c"
  shows "mk_inv memory sz s F (od(b + pow2 c := c, b := c)) L (insert (b + pow2 c) H)"
    and "b + pow2 c \<notin> mk_blocks F (max_order s) L H"
proof -
  let ?mo = "max_order s"
  let ?nb = "b + pow2 c"
  let ?B = "mk_blocks F ?mo L H"
  let ?od' = "od(?nb := c, b := c)"
  note d = mk_invD [OF inv]
  have bB: "b \<in> ?B" using b by (simp add: mk_blocks_def)
  note bf = mk_block_facts [OF inv bB]
  have c20: "c < 64" using bf(6) c by simp
  have pc: "unat (pow2 c) = 2 ^ c" using c20 by (rule pow2_unat)
  have p16: "(16 :: nat) \<le> 2 ^ c"
    using power_increasing [OF c(2), of "2 :: nat"] by simp
  have unb: "unat ?nb = unat b + 2 ^ c"
  proof -
    have "unat b + unat (pow2 c) < 2 ^ LENGTH(64)" using bf(3) c pc by simp
    then show ?thesis by (simp add: unat_add_lem [THEN iffD1] pc)
  qed
  have "(2::nat) ^ c + 16 \<le> 2 ^ od b" using p16 c by simp
  from geom_split [OF d(9) bB _ p16 this unb]
  have nbB: "?nb \<notin> ?B"
    and g': "geom 16 (unat memory + 544) (unat memory + unat sz) (insert ?nb ?B)
        ((\<lambda>b. 2 ^ od b)(?nb := 2 ^ od b - 2 ^ c, b := 2 ^ c))"
    by simp_all
  show "?nb \<notin> ?B" by (rule nbB)
  have nbb: "?nb \<noteq> b" using unb by auto
  have szf: "(\<lambda>x. 2 ^ ?od' x) = (\<lambda>b. (2::nat) ^ od b)(?nb := 2 ^ od b - 2 ^ c, b := 2 ^ c)"
    using c by (auto simp: fun_eq_iff)
  have B': "mk_blocks F ?mo L (insert ?nb H) = insert ?nb ?B"
    by (auto simp: mk_blocks_def)
  have b_notfree: "b \<notin> mk_free F ?mo" "b \<notin> tag_of ` L" using d(8) b by auto
  have nb_not: "?nb \<notin> mk_free F ?mo" "?nb \<notin> tag_of ` L" "?nb \<notin> H"
    using nbB by (auto simp: mk_blocks_def)
  show "mk_inv memory sz s F ?od' L (insert ?nb H)"
  proof (rule mk_invI)
    show "mk_arena_ok memory sz" "mk_base s = memory" "min_order s = 4" "4 \<le> ?mo" "?mo \<le> 20"
      by (rule d)+
    show "chain (node_next s) (free_lists s k) (F k) \<and> (\<forall>x\<in>set (F k). ?od' x = k)"
      if k: "k \<le> ?mo" for k
    proof -
      note ck = mk_inv_chain [OF inv k]
      have "x \<noteq> b \<and> x \<noteq> ?nb" if "x \<in> set (F k)" for x
        using that ck(4) b_notfree nb_not by auto
      then show ?thesis using ck(1,3) by auto
    qed
    show "unat (hdr s (tag_of p)) = ?od' (tag_of p)" if "p \<in> L" for p
    proof -
      have "tag_of p \<in> tag_of ` L" using that by simp
      then have "tag_of p \<noteq> b" "tag_of p \<noteq> ?nb" using b_notfree nb_not by metis+
      then show ?thesis using d(6) [OF that] by simp
    qed
    show "mk_free F ?mo \<inter> tag_of ` L = {}" by (rule d)
    show "insert ?nb H \<inter> (mk_free F ?mo \<union> tag_of ` L) = {}"
      using d(8) nb_not by auto
    show "geom 16 (unat memory + 544) (unat memory + unat sz)
        (mk_blocks F ?mo L (insert ?nb H)) (\<lambda>x. 2 ^ ?od' x)"
      using g' by (simp only: B' szf)
    show "4 \<le> ?od' x \<and> ?od' x \<le> ?mo \<and> 16 dvd unat x"
      if xin: "x \<in> mk_blocks F ?mo L (insert ?nb H)" for x
    proof -
      have cmo: "c \<le> ?mo" using bf(5) c by simp
      have d16: "(16 :: nat) dvd 2 ^ c"
        using le_imp_power_dvd [OF c(2), of "2 :: nat"] by simp
      from xin have "x = ?nb \<or> x \<in> ?B" by (simp add: B')
      then consider "x = ?nb" | "x = b" | "x \<in> ?B" "x \<noteq> b" "x \<noteq> ?nb"
        by blast
      then show ?thesis
      proof cases
        case 1
        then show ?thesis using c cmo unb bf(7) d16 by (simp add: nbb)
      next
        case 2
        then show ?thesis using c cmo bf(7) by simp
      next
        case 3
        then show ?thesis using d(10) [of x] by simp
      qed
    qed
  qed
qed

lemma mk_merge_inv:
  assumes inv: "mk_inv memory sz s F od L H" and b: "b \<in> H" and c: "c \<in> H"
    and od: "od c = od b" and adj: "unat b + 2 ^ od b = unat c"
    and k: "Suc (od b) \<le> max_order s"
  shows "mk_inv memory sz s F (od(b := Suc (od b))) L (H - {c})"
proof -
  let ?mo = "max_order s"
  let ?B = "mk_blocks F ?mo L H"
  let ?od' = "od(b := Suc (od b))"
  note d = mk_invD [OF inv]
  have bB: "b \<in> ?B" and cB: "c \<in> ?B" using b c by (simp_all add: mk_blocks_def)
  note bf = mk_block_facts [OF inv bB]
  have bc: "b \<noteq> c" using adj by auto
  from geom_merge [OF d(9) bB cB _ adj]
  have g': "geom 16 (unat memory + 544) (unat memory + unat sz) (?B - {c})
      ((\<lambda>b. 2 ^ od b)(b := 2 ^ od b + 2 ^ od c))"
    by simp
  have szf: "(\<lambda>x. 2 ^ ?od' x) = (\<lambda>b. (2::nat) ^ od b)(b := 2 ^ od b + 2 ^ od c)"
    using od by (auto simp: fun_eq_iff)
  have notfree: "b \<notin> mk_free F ?mo" "b \<notin> tag_of ` L" "c \<notin> mk_free F ?mo" "c \<notin> tag_of ` L"
    using d(8) b c by auto
  have B': "mk_blocks F ?mo L (H - {c}) = ?B - {c}"
    using notfree by (auto simp: mk_blocks_def)
  show ?thesis
  proof (rule mk_invI)
    show "mk_arena_ok memory sz" "mk_base s = memory" "min_order s = 4" "4 \<le> ?mo" "?mo \<le> 20"
      by (rule d)+
    show "chain (node_next s) (free_lists s j) (F j) \<and> (\<forall>x\<in>set (F j). ?od' x = j)"
      if j: "j \<le> ?mo" for j
    proof -
      note cj = mk_inv_chain [OF inv j]
      have "x \<noteq> b" if "x \<in> set (F j)" for x
        using that cj(4) notfree by auto
      then show ?thesis using cj(1,3) by auto
    qed
    show "unat (hdr s (tag_of p)) = ?od' (tag_of p)" if "p \<in> L" for p
    proof -
      have "tag_of p \<in> tag_of ` L" using that by simp
      then have "tag_of p \<noteq> b" using notfree by metis
      then show ?thesis using d(6) [OF that] by simp
    qed
    show "mk_free F ?mo \<inter> tag_of ` L = {}" by (rule d)
    show "(H - {c}) \<inter> (mk_free F ?mo \<union> tag_of ` L) = {}" using d(8) by auto
    show "geom 16 (unat memory + 544) (unat memory + unat sz)
        (mk_blocks F ?mo L (H - {c})) (\<lambda>x. 2 ^ ?od' x)"
      using g' by (simp only: B' szf)
    show "4 \<le> ?od' x \<and> ?od' x \<le> ?mo \<and> 16 dvd unat x"
      if "x \<in> mk_blocks F ?mo L (H - {c})" for x
    proof (cases "x = b")
      case True
      then show ?thesis using bf(4,7) k by simp
    next
      case False
      then show ?thesis using that d(10) [of x] by (auto simp: B')
    qed
  qed
qed

lemma mk_split_down_inv:
  "mk_inv memory sz s F od L {b} \<Longrightarrow> od b = cur \<Longrightarrow> 4 \<le> k \<Longrightarrow> k \<le> cur \<Longrightarrow>
   \<exists>F' od'. mk_inv memory sz (split_down s b k cur) F' od' L {b} \<and> od' b = k"
proof (induction s b k cur arbitrary: F od rule: split_down.induct)
  case (1 s block k cur)
  show ?case
  proof (cases "k < cur")
    case False
    with "1.prems" have "cur = k" by simp
    with "1.prems" False show ?thesis
      by (subst split_down.simps) auto
  next
    case True
    define c where "c = cur - 1"
    have cur: "cur = Suc c" and c4: "4 \<le> c" and kc: "k \<le> c"
      using True "1.prems" by (simp_all add: c_def)
    let ?nb = "block + pow2 c"
    let ?od1 = "od(?nb := c, block := c)"
    have bH: "block \<in> {block}" by simp
    from mk_split_inv [OF "1.prems"(1) bH _ c4, of ] "1.prems"(2) cur
    have inv1: "mk_inv memory sz s F ?od1 L (insert ?nb {block})"
      and nb_new: "?nb \<notin> mk_blocks F (max_order s) L {block}"
      by simp_all
    have nbb: "?nb \<noteq> block" using nb_new by (auto simp: mk_blocks_def)
    have odnb: "?od1 ?nb = c" using nbb by simp
    from mk_push_inv [OF inv1, of ?nb] odnb nbb
    have inv2: "mk_inv memory sz (list_push s (Slot c) ?nb) (F(c := ?nb # F c)) ?od1 L {block}"
      by (simp add: insert_Diff_if)
    have "\<exists>F' od'. mk_inv memory sz (split_down (list_push s (Slot c) ?nb) block k c) F' od' L {block}
        \<and> od' block = k"
      using "1.IH" [OF True c_def refl inv2 _ "1.prems"(3) kc] by (simp add: c_def)
    then show ?thesis
      using True by (subst split_down.simps) (simp add: Let_def c_def)
  qed
qed

lemma mk_adjacent:
  assumes inv: "mk_inv memory sz s F od L H" and b: "b \<in> H" and c: "c \<in> H"
    and od: "od c = od b" and bud: "c = buddy_addr s b (od b)"
  shows "(if c < b then unat c + 2 ^ od b = unat b else unat b + 2 ^ od b = unat c)"
proof -
  have bB: "b \<in> mk_blocks F (max_order s) L H" and cB: "c \<in> mk_blocks F (max_order s) L H"
    using b c by (simp_all add: mk_blocks_def)
  note bf = mk_block_facts [OF inv bB]
  note cf = mk_block_facts [OF inv cB]
  have pos: "(0::nat) < 2 ^ od b" by simp
  from buddy_addr_cases [of s b "od b"] bud
  consider "c = b + pow2 (od b)" | "b = c + pow2 (od c)"
    using od by auto
  then show ?thesis
  proof cases
    case 1
    then have "unat c = unat b + 2 ^ od b" using bf(12) by simp
    then show ?thesis using pos by (simp add: word_less_nat_alt)
  next
    case 2
    then have "unat b = unat c + 2 ^ od c" using cf(12) by simp
    then show ?thesis using pos od by (simp add: word_less_nat_alt)
  qed
qed

lemma mk_free_loop_inv:
  "mk_inv memory sz s F od L {b} \<Longrightarrow> n = max_order s - od b \<Longrightarrow>
   \<exists>s' F' od'. free_loop s b (od b) = Some s' \<and> mk_inv memory sz s' F' od' L {}"
proof (induction n arbitrary: s F od b rule: less_induct)
  case (less n)
  note inv = less.prems(1)
  let ?k = "od b" and ?mo = "max_order s"
  let ?buddy = "buddy_addr s b ?k"
  have bB: "b \<in> mk_blocks F ?mo L {b}" by (simp add: mk_blocks_def)
  note bf = mk_block_facts [OF inv bB]
  note ck = mk_inv_chain [OF inv bf(5)]
  have scan: "scan_buddy s (free_lists s ?k) ?buddy = Some (?buddy \<in> set (F ?k))"
    using ck(1) by (rule scan_buddy_chain)
  show ?case
  proof (cases "?buddy \<in> set (F ?k)")
    case False
    from mk_push_inv [OF inv, of b]
    have "mk_inv memory sz (list_push s (Slot ?k) b) (F(?k := b # F ?k)) od L {}" by simp
    moreover have "free_loop s b ?k = Some (list_push s (Slot ?k) b)"
      using False scan by (subst free_loop.simps) (simp add: Let_def)
    ultimately show ?thesis by blast
  next
    case True
    then obtain as cs where Fk: "F ?k = as @ ?buddy # cs"
      by (auto simp: in_set_conv_decomp)
    let ?s1 = "mk_store s (mk_link_after (Slot ?k) as) (node_next s ?buddy)"
    let ?F1 = "F(?k := as @ cs)"
    note u = mk_unlink_inv [OF inv bf(5) Fk]
    have inv1: "mk_inv memory sz ?s1 ?F1 od L {?buddy, b}" using u(1) by simp
    have odc: "od ?buddy = ?k" using ck(3) True by simp
    have bud1: "?buddy = buddy_addr ?s1 b ?k" by (simp add: buddy_addr_def)
    have adj: "(if ?buddy < b then unat ?buddy + 2 ^ ?k = unat b
        else unat b + 2 ^ ?k = unat ?buddy)"
      using mk_adjacent [OF inv1, of b ?buddy] odc bud1 by simp
    let ?lo = "if ?buddy < b then ?buddy else b"
    let ?up = "if ?buddy < b then b else ?buddy"
    have lo_up: "?lo \<in> {?buddy, b}" "?up \<in> {?buddy, b}" "od ?lo = ?k" "od ?up = ?k"
      "unat ?lo + 2 ^ od ?lo = unat ?up" "?lo \<noteq> ?up" "{?buddy, b} - {?up} = {?lo}"
      using adj odc by (auto split: if_splits)
    have unfold: "free_loop s b ?k =
        (if ?mo < ?k + 1 then Some (list_push ?s1 (Slot ?k) ?lo)
         else free_loop ?s1 ?lo (?k + 1))"
      using True scan u(2) by (subst free_loop.simps) (simp add: Let_def)
    show ?thesis
    proof (cases "?mo < ?k + 1")
      case True
      from mk_drop_inv [OF inv1, of "{?up}"] lo_up(7)
      have "mk_inv memory sz ?s1 ?F1 od L {?lo}" by simp
      from mk_push_inv [OF this, of ?lo] lo_up(3)
      have "mk_inv memory sz (list_push ?s1 (Slot ?k) ?lo) (?F1(?k := ?lo # ?F1 ?k)) od L {}"
        by simp
      moreover have "free_loop s b ?k = Some (list_push ?s1 (Slot ?k) ?lo)"
        using unfold True by simp
      ultimately show ?thesis by blast
    next
      case False
      then have k1: "Suc ?k \<le> max_order ?s1" by simp
      let ?od' = "od(?lo := Suc ?k)"
      from mk_merge_inv [OF inv1 lo_up(1,2) _ lo_up(5)] lo_up(3,4,7) k1
      have inv2: "mk_inv memory sz ?s1 ?F1 ?od' L {?lo}" by simp
      have "max_order ?s1 - ?od' ?lo < n"
        using less.prems(2) False by simp
      from less.IH [OF this inv2 refl]
      obtain s' F' od' where "free_loop ?s1 ?lo (?od' ?lo) = Some s'"
        and r: "mk_inv memory sz s' F' od' L {}" by blast
      then have "free_loop s b ?k = Some s'" using unfold False by simp
      with r show ?thesis by blast
    qed
  qed
qed

lemma find_order_props:
  "k \<le> find_order s k \<and>
   (find_order s k \<le> max_order s \<longrightarrow> free_lists s (find_order s k) \<noteq> 0) \<and>
   (\<forall>j. k \<le> j \<and> j < find_order s k \<longrightarrow> j \<le> max_order s \<and> free_lists s j = 0)"
proof (induction s k rule: find_order.induct)
  case (1 s cur)
  have eq: "find_order s cur =
      (if cur \<le> max_order s \<and> free_lists s cur = 0 then find_order s (cur + 1) else cur)"
    by (rule find_order.simps)
  show ?case
  proof (cases "cur \<le> max_order s \<and> free_lists s cur = 0")
    case True
    then have e: "find_order s cur = find_order s (Suc cur)" using eq by simp
    have "j \<le> max_order s \<and> free_lists s j = 0"
      if "cur \<le> j" "j < find_order s (Suc cur)" for j
    proof (cases "j = cur")
      case True
      then show ?thesis using \<open>cur \<le> max_order s \<and> free_lists s cur = 0\<close> by simp
    next
      case False
      with that have "Suc cur \<le> j" by simp
      with "1.IH" [OF True] that show ?thesis by simp
    qed
    with "1.IH" [OF True] show ?thesis unfolding e by auto
  next
    case False
    then have "find_order s cur = cur" by (subst eq) auto
    with False show ?thesis by auto
  qed
qed

lemma order_for_loop_props:
  "order_for_loop need k0 = Some k \<Longrightarrow>
   k0 \<le> k \<and> k < 64 \<and> need \<le> pow2 k \<and> (\<forall>j. k0 \<le> j \<and> j < k \<longrightarrow> pow2 j < need)"
proof (induction need k0 rule: order_for_loop.induct)
  case (1 need k0)
  show ?case
  proof (cases "64 \<le> k0")
    case True
    with "1.prems" show ?thesis by (subst (asm) order_for_loop.simps) simp
  next
    case False
    show ?thesis
    proof (cases "pow2 k0 < need")
      case True
      with "1.prems" False have "order_for_loop need (k0 + 1) = Some k"
        by (subst (asm) order_for_loop.simps) simp
      from "1.IH" [OF False True this]
      have ih: "k0 + 1 \<le> k" "k < 64" "need \<le> pow2 k"
        "\<forall>j. k0 + 1 \<le> j \<and> j < k \<longrightarrow> pow2 j < need"
        by simp_all
      have "pow2 j < need" if "k0 \<le> j" "j < k" for j
      proof (cases "j = k0")
        case True
        then show ?thesis using \<open>pow2 k0 < need\<close> by simp
      next
        case False
        with that have "k0 + 1 \<le> j" by simp
        with ih(4) that show ?thesis by simp
      qed
      with ih show ?thesis by simp
    next
      case False
      with "1.prems" \<open>\<not> 64 \<le> k0\<close> show ?thesis
        by (subst (asm) order_for_loop.simps) auto
    qed
  qed
qed

lemma list_pop_slot:
  "free_lists s k \<noteq> 0 \<Longrightarrow>
   list_pop s (Slot k) =
     (free_lists s k, mk_store s (mk_link_after (Slot k) []) (node_next s (free_lists s k)))"
  by (simp add: list_pop_def Let_def)

lemma mk_alloc_hit:
  assumes inv: "mk_inv memory sz s F od L {}" and n: "n \<noteq> 0"
    and k: "order_for n (min_order s) = Some k" "k \<le> max_order s"
    and cur: "find_order s k \<le> max_order s"
  shows "\<exists>node s' F' od'. mk_allocator_alloc s n = Some (node + 2, s') \<and>
           free_lists s (find_order s k) = node \<and>
           mk_inv memory sz s' F' od' (insert (node + 2) L) {} \<and>
           od' node = k \<and> unat (hdr s' node) = k \<and> node + 2 \<noteq> 0 \<and>
           16 dvd unat node \<and> unat (node + 2) = unat node + 2"
proof -
  let ?cur = "find_order s k"
  note d = mk_invD [OF inv]
  note fo = find_order_props [of k s]
  have k4: "4 \<le> k"
    using order_for_loop_props [OF k(1) [unfolded order_for_def]] d(3) by simp
  note cc = mk_inv_chain [OF inv cur]
  from fo cur have nz: "free_lists s ?cur \<noteq> 0" by simp
  then obtain node rest where Fc: "F ?cur = node # rest" and node: "free_lists s ?cur = node"
    using cc(1) by (cases "F ?cur") auto
  let ?s1 = "mk_store s (mk_link_after (Slot ?cur) []) (node_next s node)"
  have pop: "list_pop s (Slot ?cur) = (node, ?s1)"
    using list_pop_slot [OF nz] node by simp
  from mk_unlink_inv(1) [OF inv cur, of "[]" node rest] Fc
  have inv1: "mk_inv memory sz ?s1 (F(?cur := rest)) od L {node}" by simp
  have odn: "od node = ?cur" using cc(3) Fc by simp
  from mk_split_down_inv [OF inv1 odn k4] fo
  obtain F2 od2 where inv2: "mk_inv memory sz (split_down ?s1 node k ?cur) F2 od2 L {node}"
    and od2: "od2 node = k"
    by blast
  let ?s2 = "split_down ?s1 node k ?cur"
  let ?s3 = "?s2\<lparr>hdr := (hdr ?s2)(node := of_nat k)\<rparr>"
  from mk_give_inv [OF inv2] od2
  have inv3: "mk_inv memory sz ?s3 F2 od2 (insert (node + 2) L) {}" by simp
  have nB: "node \<in> mk_blocks F2 (max_order ?s2) L {node}" by (simp add: mk_blocks_def)
  note nf = mk_block_facts [OF inv2 nB]
  have "unat (of_nat k :: 16 word) = k" using nf(6) od2 by (simp add: unat_of_nat)
  then have tag: "unat (hdr ?s3 node) = k" by simp
  have "mk_allocator_alloc s n = Some (node + 2, ?s3)"
    using n k cur pop by (simp add: mk_allocator_alloc_def Let_def sizeof_uint16_t_def)
  with inv3 od2 tag nf(7,9,10) node show ?thesis by blast
qed

lemma mk_alloc_null:
  assumes "n = 0 \<or> (\<exists>k. order_for n (min_order s) = Some k \<and>
            (max_order s < k \<or> max_order s < find_order s k))"
  shows "mk_allocator_alloc s n = Some (0, s)"
  using assms by (auto simp: mk_allocator_alloc_def Let_def)

lemma mk_alloc_inv:
  assumes inv: "mk_inv memory sz s F od L {}" and al: "mk_allocator_alloc s n = Some (p, s')"
  shows "\<exists>F' od'. mk_inv memory sz s' F' od' (if p = 0 then L else insert p L) {}"
    and "p = 0 \<Longrightarrow> s' = s"
    and "p \<noteq> 0 \<Longrightarrow> 16 dvd unat (tag_of p) \<and> unat p = unat (tag_of p) + 2"
proof -
  have "(\<exists>F' od'. mk_inv memory sz s' F' od' (if p = 0 then L else insert p L) {}) \<and>
      (p = 0 \<longrightarrow> s' = s) \<and>
      (p \<noteq> 0 \<longrightarrow> 16 dvd unat (tag_of p) \<and> unat p = unat (tag_of p) + 2)"
  proof (cases "n = 0")
    case True
    with al inv show ?thesis by (auto simp: mk_allocator_alloc_def)
  next
    case False
    from al False obtain k where k: "order_for n (min_order s) = Some k"
      by (auto simp: mk_allocator_alloc_def split: option.splits)
    show ?thesis
    proof (cases "max_order s < k \<or> max_order s < find_order s k")
      case True
      with k have "mk_allocator_alloc s n = Some (0, s)" by (intro mk_alloc_null) blast
      with al inv show ?thesis by auto
    next
      case False
      then have "k \<le> max_order s" "find_order s k \<le> max_order s" by simp_all
      from mk_alloc_hit [OF inv \<open>n \<noteq> 0\<close> k this] al
      show ?thesis by auto
    qed
  qed
  then show "\<exists>F' od'. mk_inv memory sz s' F' od' (if p = 0 then L else insert p L) {}"
    and "p = 0 \<Longrightarrow> s' = s"
    and "p \<noteq> 0 \<Longrightarrow> 16 dvd unat (tag_of p) \<and> unat p = unat (tag_of p) + 2"
    by blast+
qed

lemma mk_free_inv:
  assumes inv: "mk_inv memory sz s F od L {}" and p: "p \<in> L"
  shows "\<exists>s' F' od'. mk_allocator_free s p = Some s' \<and> mk_inv memory sz s' F' od' (L - {p}) {}"
proof -
  note d = mk_invD [OF inv]
  have pB: "tag_of p \<in> mk_blocks F (max_order s) L {}" using p by (simp add: mk_blocks_def)
  note pf = mk_block_facts [OF inv pB]
  have p0: "p \<noteq> 0" using pf(10) by simp
  from mk_take_inv [OF inv p]
  have inv1: "mk_inv memory sz s F od (L - {p}) {tag_of p}" .
  from mk_free_loop_inv [OF inv1 refl]
  obtain s' F' od' where "free_loop s (tag_of p) (od (tag_of p)) = Some s'"
    and r: "mk_inv memory sz s' F' od' (L - {p}) {}"
    by blast
  then have "mk_allocator_free s p = Some s'"
    using p0 d(6) [OF p] by (simp add: mk_allocator_free_def Let_def tag_of_def)
  with r show ?thesis by blast
qed

lemma create_seed_chain:
  "chain (node_next s) (free_lists s (max_order s)) xs \<Longrightarrow>
   \<forall>j. unat i \<le> j \<and> j < unat blocks \<longrightarrow>
     seed_block arena (max_order s) j \<noteq> 0 \<and> seed_block arena (max_order s) j \<notin> set xs \<Longrightarrow>
   \<forall>j j'. unat i \<le> j \<and> j < j' \<and> j' < unat blocks \<longrightarrow>
     seed_block arena (max_order s) j \<noteq> seed_block arena (max_order s) j' \<Longrightarrow>
   chain (node_next (create_seed s arena blocks i))
     (free_lists (create_seed s arena blocks i) (max_order s))
     (rev (map (seed_block arena (max_order s)) [unat i..<unat blocks]) @ xs) \<and>
   (\<forall>k. k \<noteq> max_order s \<longrightarrow> free_lists (create_seed s arena blocks i) k = free_lists s k) \<and>
   hdr (create_seed s arena blocks i) = hdr s \<and>
   mk_base (create_seed s arena blocks i) = mk_base s \<and>
   mk_size (create_seed s arena blocks i) = mk_size s \<and>
   min_order (create_seed s arena blocks i) = min_order s \<and>
   max_order (create_seed s arena blocks i) = max_order s"
proof (induction s arena blocks i arbitrary: xs rule: create_seed.induct)
  case (1 s arena blocks i)
  let ?mo = "max_order s"
  have eq: "create_seed s arena blocks i =
      (if i < blocks then
        create_seed (list_push s (Slot ?mo) (arena + push_bit ?mo i)) arena blocks (i + 1)
       else s)"
    by (subst create_seed.simps) (simp add: Let_def)
  show ?case
  proof (cases "i < blocks")
    case False
    then have "unat blocks \<le> unat i" by (simp add: word_less_nat_alt)
    with False "1.prems"(1) show ?thesis by (simp add: eq)
  next
    case True
    then have lt: "unat i < unat blocks" by (simp add: word_less_nat_alt)
    have "unat blocks < 2 ^ LENGTH(64)" by (rule unsigned_less)
    with lt have "unat i + unat (1 :: size_t) < 2 ^ LENGTH(64)" by simp
    then have ui: "unat (i + 1) = Suc (unat i)"
      by (simp add: unat_add_lem [THEN iffD1])
    let ?b = "arena + push_bit ?mo i"
    have b: "?b = seed_block arena ?mo (unat i)" by (simp add: seed_block_def)
    let ?s1 = "list_push s (Slot ?mo) ?b"
    have b_ok: "?b \<noteq> 0" "?b \<notin> set xs" using "1.prems"(2) lt b by auto
    have ch1: "chain (node_next ?s1) (free_lists ?s1 (max_order ?s1)) (?b # xs)"
      using "1.prems"(1) b_ok by (simp add: seg_upd)
    have p2: "\<forall>j. unat (i + 1) \<le> j \<and> j < unat blocks \<longrightarrow>
        seed_block arena (max_order ?s1) j \<noteq> 0 \<and> seed_block arena (max_order ?s1) j \<notin> set (?b # xs)"
    proof (intro allI impI)
      fix j assume j: "unat (i + 1) \<le> j \<and> j < unat blocks"
      then have ij: "unat i \<le> j" "unat i < j" "j < unat blocks" using ui by simp_all
      from "1.prems"(2) ij have "seed_block arena ?mo j \<noteq> 0 \<and> seed_block arena ?mo j \<notin> set xs"
        by blast
      moreover from "1.prems"(3) ij have "seed_block arena ?mo (unat i) \<noteq> seed_block arena ?mo j"
        by blast
      ultimately show "seed_block arena (max_order ?s1) j \<noteq> 0 \<and>
          seed_block arena (max_order ?s1) j \<notin> set (?b # xs)"
        unfolding b by auto
    qed
    have p3: "\<forall>j j'. unat (i + 1) \<le> j \<and> j < j' \<and> j' < unat blocks \<longrightarrow>
        seed_block arena (max_order ?s1) j \<noteq> seed_block arena (max_order ?s1) j'"
      using "1.prems"(3) ui by simp
    note ih = "1.IH" [OF True refl ch1 p2 p3]
    have upt: "[unat i..<unat blocks] = unat i # [unat (i + 1)..<unat blocks]"
      using lt ui by (simp add: upt_conv_Cons)
    have e: "create_seed s arena blocks i = create_seed ?s1 arena blocks (i + 1)"
      using True by (subst eq) simp
    show ?thesis
      unfolding e upt using ih by (simp add: b)
  qed
qed

lemma create_off_eq: "create_off = 544"
  by (simp add: create_off_def align_up_def sizeof_mk_Allocator_def)

lemma create_order_bounds:
  assumes "\<not> create_usable sz < 64"
  shows "6 \<le> create_order sz" "create_order sz \<le> 20" "2 ^ create_order sz \<le> unat (create_usable sz)"
  using create_max_order_bounds [of "create_usable sz"] assms
  by (simp_all add: create_order_def not_less)

lemma mk_create_eq:
  "mk_allocator_create m memory sz =
     (if create_usable sz < 64 \<or> create_usable sz \<le> create_align_pad memory sz then None
      else Some (create_seed
        (m\<lparr>mk_base := memory, mk_size := sz, min_order := 4, max_order := create_order sz,
           free_lists := (\<lambda>i. if i < 64 then 0 else free_lists m i)\<rparr>)
        (create_aligned memory sz) (create_blocks memory sz) 0))"
proof (cases "create_usable sz < 64")
  case True
  then show ?thesis
    by (simp add: mk_allocator_create_def Let_def create_usable_def create_off_def)
next
  case False
  from create_order_bounds(1) [OF False] have "\<not> create_order sz < 4" by simp
  with False show ?thesis
    by (simp add: mk_allocator_create_def Let_def create_min_order_eq create_usable_def
        create_off_def create_order_def create_align_pad_def create_aligned_def
        create_blocks_def cong: if_cong)
qed

lemma create_geometry:
  assumes ok: "mk_arena_ok memory sz"
    and u64: "\<not> create_usable sz < 64"
    and pad: "\<not> create_usable sz \<le> create_align_pad memory sz"
  defines "mo \<equiv> create_order sz"
  defines "A \<equiv> unat (create_aligned memory sz)"
  defines "nb \<equiv> unat (create_blocks memory sz)"
  shows "unat memory + 544 \<le> A" "2 ^ mo dvd A" "A + nb * 2 ^ mo \<le> unat memory + unat sz"
    "\<forall>j<nb. unat (seed_block (create_aligned memory sz) mo j) = A + j * 2 ^ mo"
    "unat (create_align_pad memory sz) < 2 ^ mo"
    "A = unat memory + 544 + unat (create_align_pad memory sz)"
    "nb = (unat sz - 544 - unat (create_align_pad memory sz)) div 2 ^ mo"
proof -
  from ok have m: "544 \<le> unat sz" "unat memory + unat sz < 2 ^ 64"
    by (simp_all add: mk_arena_ok_def)
  note ob = create_order_bounds [OF u64, folded mo_def]
  have mo64: "mo < 64" using ob(2) by simp
  let ?arena = "memory + create_off"
  let ?usable = "create_usable sz"
  let ?pad = "create_align_pad memory sz"
  have arena: "unat ?arena = unat memory + 544"
  proof -
    have "unat memory + unat (544 :: addr) < 2 ^ LENGTH(64)" using m by simp
    then show ?thesis by (simp add: create_off_eq unat_add_lem [THEN iffD1])
  qed
  have usable: "unat ?usable = unat sz - 544"
  proof -
    have "(544 :: size_t) \<le> sz" using m by (simp add: word_le_nat_alt)
    then show ?thesis by (simp add: create_usable_def create_off_eq unat_sub)
  qed
  have al: "create_aligned memory sz = (?arena + mask mo) AND NOT (mask mo)"
    by (simp add: create_aligned_def Let_def pow2_mask mo_def)
  note aw = align_word [OF mo64, of ?arena, folded al, folded create_align_pad_def]
  show padlt: "unat ?pad < 2 ^ mo" using aw(1) .
  show "2 ^ mo dvd A" using aw(2) by (simp add: A_def)
  have plt: "unat ?pad < unat ?usable" using pad by (simp add: word_le_nat_alt not_le)
  then have "unat ?arena + unat ?pad < 2 ^ 64" using arena usable m by simp
  from aw(3) [OF this] show A: "A = unat memory + 544 + unat ?pad"
    by (simp add: A_def arena)
  then show "unat memory + 544 \<le> A" by simp
  let ?u1 = "?usable - ?pad"
  have u1: "unat ?u1 = unat sz - 544 - unat ?pad"
  proof -
    have "?pad \<le> ?usable" using plt by (simp add: word_le_nat_alt)
    then show ?thesis by (simp add: unat_sub usable)
  qed
  have nb: "nb = unat ?u1 div 2 ^ mo"
  proof -
    have "unat (drop_bit mo (?u1 AND NOT (mask mo))) = drop_bit mo (unat (?u1 AND NOT (mask mo)))"
      by (simp only: unat_drop_bit_eq)
    also have "\<dots> = (unat ?u1 - unat ?u1 mod 2 ^ mo) div 2 ^ mo"
      by (simp add: drop_bit_eq_div unat_and_not_mask)
    also have "\<dots> = unat ?u1 div 2 ^ mo"
      by (simp add: minus_mod_eq_div_mult)
    finally show ?thesis
      by (simp add: nb_def create_blocks_def pow2_mask mo_def)
  qed
  then show "nb = (unat sz - 544 - unat ?pad) div 2 ^ mo" by (simp add: u1)
  have nbm: "nb * 2 ^ mo \<le> unat ?u1" unfolding nb by simp
  with u1 plt usable show top: "A + nb * 2 ^ mo \<le> unat memory + unat sz"
    unfolding A using m by simp
  show "\<forall>j<nb. unat (seed_block (create_aligned memory sz) mo j) = A + j * 2 ^ mo"
  proof (intro allI impI)
    fix j assume j: "j < nb"
    then have "j * 2 ^ mo \<le> nb * 2 ^ mo" by (intro mult_le_mono1) simp
    then have "A + j * 2 ^ mo \<le> A + nb * 2 ^ mo" by simp
    also note top
    also note m(2)
    finally have lim: "A + j * 2 ^ mo < 2 ^ 64" .
    then have "j * 2 ^ mo < 2 ^ 64" by simp
    then have pj: "unat (push_bit mo (of_nat j :: 64 word)) = j * 2 ^ mo"
      by (rule unat_push_bit_of_nat)
    have "unat (create_aligned memory sz) + unat (push_bit mo (of_nat j :: 64 word)) < 2 ^ LENGTH(64)"
      using lim by (simp add: pj A_def)
    then show "unat (seed_block (create_aligned memory sz) mo j) = A + j * 2 ^ mo"
      by (simp add: seed_block_def unat_add_lem [THEN iffD1] pj A_def)
  qed
qed

lemma mk_create_inv:
  assumes ok: "mk_arena_ok memory sz" and cr: "mk_allocator_create m memory sz = Some s"
  defines "mo \<equiv> create_order sz"
  defines "F \<equiv> (\<lambda>_. [])(mo := seed_list (create_aligned memory sz) mo (unat (create_blocks memory sz)))"
  shows "mk_inv memory sz s F (\<lambda>_. mo) {} {}"
    and "max_order s = mo" and "\<forall>k<64. k \<noteq> mo \<longrightarrow> free_lists s k = 0"
    and "mk_size s = sz"
proof -
  let ?al = "create_aligned memory sz"
  let ?bl = "create_blocks memory sz"
  let ?A3 = "m\<lparr>mk_base := memory, mk_size := sz, min_order := 4, max_order := create_order sz,
           free_lists := (\<lambda>i. if i < 64 then 0 else free_lists m i)\<rparr>"
  from cr have u64: "\<not> create_usable sz < 64"
    and pad: "\<not> create_usable sz \<le> create_align_pad memory sz"
    and s: "s = create_seed ?A3 ?al ?bl 0"
    by (auto simp: mk_create_eq split: if_splits)
  note ob = create_order_bounds [OF u64, folded mo_def]
  note cg = create_geometry [OF ok u64 pad, folded mo_def]
  let ?A = "unat ?al" and ?nb = "unat ?bl" and ?P = "(2::nat) ^ mo"
  have blk: "unat (seed_block ?al mo j) = ?A + j * ?P" if "j < ?nb" for j
    using cg(4) that by simp
  have mo3: "max_order ?A3 = mo" by (simp add: mo_def)
  have nz: "seed_block ?al mo j \<noteq> 0" if "j < ?nb" for j
  proof -
    have "0 < unat (seed_block ?al mo j)" using blk [OF that] cg(1) by simp
    then show ?thesis by (auto simp: unat_eq_zero)
  qed
  have mono: "unat (seed_block ?al mo j) + ?P \<le> unat (seed_block ?al mo j')"
    if "j < j'" "j' < ?nb" for j j'
  proof -
    from that have "Suc j \<le> j'" by simp
    then have "Suc j * ?P \<le> j' * ?P" by (rule mult_le_mono1)
    then show ?thesis using blk [of j] blk [of j'] that by simp
  qed
  have "chain (node_next ?A3) (free_lists ?A3 (max_order ?A3)) []"
    using ob(2) by (simp add: mo_def)
  moreover have "\<forall>j. unat (0 :: size_t) \<le> j \<and> j < ?nb \<longrightarrow>
      seed_block ?al (max_order ?A3) j \<noteq> 0 \<and> seed_block ?al (max_order ?A3) j \<notin> set []"
    using nz by (simp add: mo3)
  moreover have "\<forall>j j'. unat (0 :: size_t) \<le> j \<and> j < j' \<and> j' < ?nb \<longrightarrow>
      seed_block ?al (max_order ?A3) j \<noteq> seed_block ?al (max_order ?A3) j'"
  proof (intro allI impI)
    fix j j' assume "unat (0 :: size_t) \<le> j \<and> j < j' \<and> j' < ?nb"
    then have "unat (seed_block ?al mo j) + ?P \<le> unat (seed_block ?al mo j')"
      using mono by simp
    moreover have "0 < ?P" by simp
    ultimately have "unat (seed_block ?al mo j) \<noteq> unat (seed_block ?al mo j')" by linarith
    then show "seed_block ?al (max_order ?A3) j \<noteq> seed_block ?al (max_order ?A3) j'"
      unfolding mo3 by metis
  qed
  ultimately have cs:
    "chain (node_next s) (free_lists s mo) (seed_list ?al mo ?nb)"
    "\<forall>k. k \<noteq> mo \<longrightarrow> free_lists s k = free_lists ?A3 k"
    "mk_base s = memory" "min_order s = 4" "max_order s = mo" "mk_size s = sz"
    using create_seed_chain [of ?A3 "[]" 0 ?bl ?al]
    unfolding s [symmetric] mo3 by (simp_all add: seed_list_def)
  show "max_order s = mo" by (rule cs)
  show "mk_size s = sz" by (rule cs)
  show "\<forall>k<64. k \<noteq> mo \<longrightarrow> free_lists s k = 0" using cs(2) by simp
  have Fset: "mk_blocks F mo {} {} = seed_block ?al mo ` {..<?nb}"
  proof -
    have "mk_free F mo = set (F mo)"
      by (auto simp: mk_free_def F_def split: if_splits)
    then show ?thesis
      by (auto simp: mk_blocks_def F_def seed_list_def)
  qed
  have p16: "(16::nat) \<le> ?P"
  proof -
    have "(2::nat) ^ 4 \<le> 2 ^ mo" using ob(1) by (intro power_increasing) simp_all
    then show ?thesis by simp
  qed
  have d16: "(16::nat) dvd ?P"
  proof -
    have "(2::nat) ^ 4 dvd 2 ^ mo" using ob(1) by (intro le_imp_power_dvd) simp
    then show ?thesis by simp
  qed
  show "mk_inv memory sz s F (\<lambda>_. mo) {} {}"
  proof (rule mk_invI)
    show "mk_arena_ok memory sz" by (rule ok)
    show "mk_base s = memory" "min_order s = 4" by (rule cs)+
    show "4 \<le> max_order s" "max_order s \<le> 20" using ob cs(5) by simp_all
    show "chain (node_next s) (free_lists s k) (F k) \<and> (\<forall>b\<in>set (F k). mo = k)"
      if "k \<le> max_order s" for k
    proof (cases "k = mo")
      case True
      then show ?thesis using cs(1) by (simp add: F_def)
    next
      case False
      moreover have "k < 64" using that cs(5) ob(2) by simp
      ultimately show ?thesis using cs(2) by (simp add: F_def)
    qed
    show "unat (hdr s (tag_of p)) = mo" if "p \<in> {}" for p using that by simp
    show "mk_free F (max_order s) \<inter> tag_of ` {} = {}" by simp
    show "{} \<inter> (mk_free F (max_order s) \<union> tag_of ` {}) = {}" by simp
    show "geom 16 (unat memory + 544) (unat memory + unat sz) (mk_blocks F (max_order s) {} {})
        (\<lambda>b. 2 ^ mo)"
      unfolding cs(5) Fset geom_def
    proof (intro conjI ballI impI)
      fix b assume "b \<in> seed_block ?al mo ` {..<?nb}"
      then obtain j where j: "j < ?nb" "b = seed_block ?al mo j" by auto
      show "unat memory + 544 \<le> unat b" using blk [OF j(1)] j(2) cg(1) by simp
      show "16 \<le> ?P" by (rule p16)
      have "Suc j * ?P \<le> ?nb * ?P" using j(1) by (intro mult_le_mono1) simp
      then show "unat b + ?P \<le> unat memory + unat sz"
        using blk [OF j(1)] j(2) cg(3) by simp
    next
      fix b c assume "b \<in> seed_block ?al mo ` {..<?nb}" "c \<in> seed_block ?al mo ` {..<?nb}"
        and lt: "unat b < unat c"
      then obtain j j' where j: "j < ?nb" "b = seed_block ?al mo j"
        and j': "j' < ?nb" "c = seed_block ?al mo j'" by auto
      have "j < j'"
      proof (rule ccontr)
        assume "\<not> j < j'"
        then have "j' * ?P \<le> j * ?P" by (intro mult_le_mono1) simp
        then show False using lt blk [OF j(1)] blk [OF j'(1)] j(2) j'(2) by simp
      qed
      from mono [OF this j'(1)] show "unat b + ?P \<le> unat c" using j j' by simp
    qed
    show "4 \<le> mo \<and> mo \<le> max_order s \<and> 16 dvd unat b"
      if "b \<in> mk_blocks F (max_order s) {} {}" for b
    proof -
      from that obtain j where j: "j < ?nb" "b = seed_block ?al mo j"
        unfolding cs(5) Fset by auto
      have "16 dvd ?A" using cg(2) d16 by (rule dvd_trans [rotated])
      moreover have "16 dvd j * ?P" using d16 by simp
      ultimately have "16 dvd unat b" using blk [OF j(1)] j(2) by simp
      then show ?thesis using ob cs(5) by simp
    qed
  qed
qed

lemma mk_reach_inv: "mk_reach memory sz s L \<Longrightarrow> \<exists>F od. mk_inv memory sz s F od L {}"
proof (induction rule: mk_reach.induct)
  case (mk_reach_create m s)
  then show ?case by (blast intro: mk_create_inv(1))
next
  case (mk_reach_alloc s L n p s')
  then obtain F od where inv: "mk_inv memory sz s F od L {}" by blast
  from mk_alloc_inv(1) [OF inv mk_reach_alloc.hyps(2)] mk_reach_alloc.hyps(3)
  show ?case by simp
next
  case (mk_reach_alloc_null s L n s')
  then obtain F od where inv: "mk_inv memory sz s F od L {}" by blast
  from mk_alloc_inv(1) [OF inv mk_reach_alloc_null.hyps(2)]
  show ?case by simp
next
  case (mk_reach_free s L p s')
  then obtain F od where inv: "mk_inv memory sz s F od L {}" by blast
  from mk_free_inv [OF inv mk_reach_free.hyps(2)] mk_reach_free.hyps(3)
  show ?case by auto
next
  case (mk_reach_free_null s L s')
  then show ?case by (simp add: mk_allocator_free_def)
qed

section \<open>Regions of live pointers\<close>



lemma mk_region_live:
  assumes inv: "mk_inv memory sz s F od L {}" and p: "p \<in> L"
  shows "within (mk_region s p) (unat memory, unat memory + unat sz)"
    and "snd (mk_region s p) - fst (mk_region s p) = 2 ^ unat (hdr s (tag_of p)) - 2"
    and "mk_region s p = (unat (tag_of p) + 2, unat (tag_of p) + 2 ^ od (tag_of p))"
proof -
  have bB: "tag_of p \<in> mk_blocks F (max_order s) L {}" using p by (simp add: mk_blocks_def)
  note bf = mk_block_facts [OF inv bB]
  have up: "unat p = unat (tag_of p) + 2" using bf(9) by simp
  have od: "unat (hdr s (tag_of p)) = od (tag_of p)" using mk_invD(6) [OF inv p] .
  have "(2::nat) ^ 4 \<le> 2 ^ od (tag_of p)" using bf(4) by (intro power_increasing) simp_all
  then have p16: "(16::nat) \<le> 2 ^ od (tag_of p)" by simp
  show "within (mk_region s p) (unat memory, unat memory + unat sz)"
    using bf(1,2) up od p16 by (simp add: within_def mk_region_def)
  show "snd (mk_region s p) - fst (mk_region s p) = 2 ^ unat (hdr s (tag_of p)) - 2"
    using up by (simp add: mk_region_def)
  show "mk_region s p = (unat (tag_of p) + 2, unat (tag_of p) + 2 ^ od (tag_of p))"
    using up od by (simp add: mk_region_def)
qed

lemma geom_apart:
  assumes g: "geom mn lo hi B sz" and b: "b \<in> B" and c: "c \<in> B" and bc: "b \<noteq> c"
    and r: "unat b \<le> rb" and i: "unat c \<le> x" "e \<le> unat c + sz c"
  shows "apart (rb, unat b + sz b) (x, e)"
proof (cases "unat b < unat c")
  case True
  from geom_order [OF g b c True] i(1) show ?thesis by (simp add: apart_def)
next
  case False
  moreover have "unat b \<noteq> unat c" using bc by (simp add: word_unat_eq_iff)
  ultimately have "unat c < unat b" by simp
  from geom_order [OF g c b this] r i(2) show ?thesis by (simp add: apart_def)
qed

lemma fl_inv_safe:
  assumes inv: "fl_inv memory sz s xs L"
  shows "fl_safe memory sz s L"
proof -
  let ?B = "fl_blocks xs L"
  from inv have g: "geom 24 (unat memory + 24) (unat memory + unat sz) ?B (fl_bytes s)"
    and live: "set xs \<inter> ptr_to_block ` L = {}"
    by (simp_all add: fl_inv_def)
  have blk: "ptr_to_block p \<in> ?B" if "p \<in> L" for p using that by (simp add: fl_blocks_def)
  have up: "unat p = unat (ptr_to_block p) + 24" if "p \<in> L" for p
    using fl_block_facts(6) [OF inv blk [OF that]] by simp
  have reg: "fl_region s p = (unat (ptr_to_block p) + 24,
      unat (ptr_to_block p) + fl_bytes s (ptr_to_block p))" if "p \<in> L" for p
    using up [OF that] by (simp add: fl_region_def fl_end_def)
  have "within (fl_region s p) (unat memory, unat memory + unat sz) \<and>
      (\<forall>q\<in>L. p \<noteq> q \<longrightarrow> apart (fl_region s p) (fl_region s q)) \<and>
      (\<forall>i\<in>fl_meta memory xs L. apart (fl_region s p) i)" if p: "p \<in> L" for p
  proof (intro conjI ballI impI)
    note bf = fl_block_facts [OF inv blk [OF p]]
    show "within (fl_region s p) (unat memory, unat memory + unat sz)"
      using bf(1,2,3) by (simp add: reg [OF p] within_def fl_end_def)
  next
    fix q assume q: "q \<in> L" and pq: "p \<noteq> q"
    then have ne: "ptr_to_block p \<noteq> ptr_to_block q" by (auto dest: ptr_to_block_inj)
    show "apart (fl_region s p) (fl_region s q)"
      unfolding reg [OF p] reg [OF q]
      by (rule geom_apart [OF g blk [OF p] blk [OF q] ne]) simp_all
  next
    fix i assume "i \<in> fl_meta memory xs L"
    then consider "i = (unat memory, unat memory + 24)"
      | f where "f \<in> set xs" "i = (unat f, unat f + 24)"
      | q where "q \<in> L" "i = (unat (ptr_to_block q), unat q)"
      by (auto simp: fl_meta_def sizeof_fl_Allocator_def sizeof_block_header_def)
    then show "apart (fl_region s p) i"
    proof cases
      case 1
      then show ?thesis
        using fl_block_facts(1) [OF inv blk [OF p]] by (simp add: reg [OF p] apart_def)
    next
      case 2
      have fB: "f \<in> ?B" using 2 by (simp add: fl_blocks_def)
      have ne: "ptr_to_block p \<noteq> f" using 2 live p by auto
      have "unat f + 24 \<le> unat f + fl_bytes s f"
        using fl_block_facts(2) [OF inv fB] by simp
      with geom_apart [OF g blk [OF p] fB ne, of "unat (ptr_to_block p) + 24" "unat f" "unat f + 24"]
      show ?thesis by (simp add: reg [OF p] 2)
    next
      case 3
      show ?thesis
      proof (cases "q = p")
        case True
        then show ?thesis using 3 up [OF p] by (simp add: reg [OF p] apart_def)
      next
        case False
        then have ne: "ptr_to_block p \<noteq> ptr_to_block q" by (auto dest: ptr_to_block_inj)
        have "unat q \<le> unat (ptr_to_block q) + fl_bytes s (ptr_to_block q)"
          using up [OF 3(1)] fl_block_facts(2) [OF inv blk [OF 3(1)]] by simp
        with geom_apart [OF g blk [OF p] blk [OF 3(1)] ne,
            of "unat (ptr_to_block p) + 24" "unat (ptr_to_block q)" "unat q"]
        show ?thesis by (simp add: reg [OF p] 3)
      qed
    qed
  qed
  with fl_inv_chain_facts(1) [OF inv] show ?thesis
    unfolding fl_safe_def by blast
qed

lemma mk_inv_safe:
  assumes inv: "mk_inv memory sz s F od L {}"
  shows "mk_safe memory sz s L"
proof -
  let ?mo = "max_order s"
  let ?B = "mk_blocks F ?mo L {}"
  let ?sz = "\<lambda>b. (2::nat) ^ od b"
  note d = mk_invD [OF inv]
  note g = d(9)
  have blk: "tag_of p \<in> ?B" if "p \<in> L" for p using that by (simp add: mk_blocks_def)
  have up: "unat p = unat (tag_of p) + 2" if "p \<in> L" for p
    using mk_block_facts(9) [OF inv blk [OF that]] by simp
  have reg: "mk_region s p = (unat (tag_of p) + 2, unat (tag_of p) + ?sz (tag_of p))"
    if "p \<in> L" for p
    using mk_region_live(3) [OF inv that] .
  have p16: "16 \<le> ?sz b" if "b \<in> ?B" for b
    using geom_bounds [OF g that] by simp
  have "within (mk_region s p) (unat memory, unat memory + unat sz) \<and>
      (\<forall>q\<in>L. p \<noteq> q \<longrightarrow> apart (mk_region s p) (mk_region s q)) \<and>
      (\<forall>i\<in>mk_meta memory F ?mo L. apart (mk_region s p) i)" if p: "p \<in> L" for p
  proof (intro conjI ballI impI)
    show "within (mk_region s p) (unat memory, unat memory + unat sz)"
      using mk_region_live(1) [OF inv p] .
  next
    fix q assume q: "q \<in> L" and pq: "p \<noteq> q"
    then have ne: "tag_of p \<noteq> tag_of q" by (auto dest: tag_of_inj)
    show "apart (mk_region s p) (mk_region s q)"
      unfolding reg [OF p] reg [OF q]
      by (rule geom_apart [OF g blk [OF p] blk [OF q] ne]) simp_all
  next
    fix i assume "i \<in> mk_meta memory F ?mo L"
    then consider "i = (unat memory, unat memory + 536)"
      | f where "f \<in> mk_free F ?mo" "i = (unat f, unat f + 8)"
      | q where "q \<in> L" "i = (unat (tag_of q), unat q)"
      by (auto simp: mk_meta_def sizeof_mk_Allocator_def)
    then show "apart (mk_region s p) i"
    proof cases
      case 1
      then show ?thesis
        using mk_block_facts(1) [OF inv blk [OF p]] by (simp add: reg [OF p] apart_def)
    next
      case 2
      have fB: "f \<in> ?B" using 2 by (simp add: mk_blocks_def)
      have ne: "tag_of p \<noteq> f" using 2 d(7) p by auto
      have "unat f + 8 \<le> unat f + ?sz f" using p16 [OF fB] by simp
      with geom_apart [OF g blk [OF p] fB ne, of "unat (tag_of p) + 2" "unat f" "unat f + 8"]
      show ?thesis by (simp add: reg [OF p] 2)
    next
      case 3
      show ?thesis
      proof (cases "q = p")
        case True
        then show ?thesis using 3 up [OF p] by (simp add: reg [OF p] apart_def)
      next
        case False
        then have ne: "tag_of p \<noteq> tag_of q" by (auto dest: tag_of_inj)
        have "unat q \<le> unat (tag_of q) + ?sz (tag_of q)"
          using up [OF 3(1)] p16 [OF blk [OF 3(1)]] by simp
        with geom_apart [OF g blk [OF p] blk [OF 3(1)] ne,
            of "unat (tag_of p) + 2" "unat (tag_of q)" "unat q"]
        show ?thesis by (simp add: reg [OF p] 3)
      qed
    qed
  qed
  moreover have "\<forall>k\<le>?mo. chain (node_next s) (free_lists s k) (F k)"
    using mk_inv_chain(1) [OF inv] by blast
  ultimately show ?thesis unfolding mk_safe_def by blast
qed

lemma int_unat_mod16: fixes w :: "64 word" shows "int (unat w mod 16) = uint w mod 16"
  by (simp add: zmod_int)
lemma unat_diff_mod16:
  fixes x y :: "64 word"
  assumes y: "16 dvd unat y"
  shows "unat (x - y) mod 16 = unat x mod 16"
proof -
  from y obtain k where "unat y = 16 * k" by (auto elim: dvdE)
  then have k: "uint y = 16 * int k" by (simp add: uint_nat)
  have "(16::int) dvd 2 ^ 64" by (rule dvdI [of _ _ "2 ^ 60"]) simp
  then have c: "(a mod 2 ^ 64) mod 16 = a mod 16" for a :: int by (rule mod_mod_cancel)
  have "uint (x - y) = (uint x - uint y) mod 2 ^ 64"
    using uint_word_ariths(2) [of x y] by simp
  then have "uint (x - y) mod 16 = (uint x - 16 * int k) mod 16" by (simp only: c k)
  also have "\<dots> = uint x mod 16"
    by (metis mod_diff_right_eq mod_mult_self1_is_0 diff_zero)
  finally have "int (unat (x - y) mod 16) = int (unat x mod 16)" by (simp only: int_unat_mod16)
  then show ?thesis by (simp only: of_nat_eq_iff)
qed

lemma mk_reach_created:
  assumes "mk_reach memory sz s L"
  shows "mk_arena_ok memory sz \<and> (\<exists>m. mk_allocator_create m memory sz \<noteq> None)"
  using assms by induction auto

lemma create_aligned_16:
  assumes ok: "mk_arena_ok memory sz" and cr: "mk_allocator_create m memory sz \<noteq> None"
  shows "16 dvd unat (create_aligned memory sz)"
proof -
  from cr have c: "\<not> create_usable sz < 64" "\<not> create_usable sz \<le> create_align_pad memory sz"
    by (simp_all add: mk_create_eq split: if_splits)
  have "(2::nat) ^ 4 dvd 2 ^ create_order sz"
    using create_order_bounds(1) [OF c(1)] by (intro le_imp_power_dvd) simp
  with create_geometry(2) [OF ok c] show ?thesis by (auto elim: dvd_trans)
qed

text \<open>
  What holds of every pointer that the buddy \<^verbatim>\<open>allocator_alloc\<close> returns: it is two bytes
  past its block, the block starts at a multiple of 16 from the aligned arena base, and so
  the pointer is even and no multiple of four.
\<close>

lemma mk_alloc_pointer_offset:
  assumes r: "mk_reach memory sz s L" and al: "mk_allocator_alloc s n = Some (p, s')"
    and p: "p \<noteq> 0"
  shows "unat p = unat (tag_of p) + 2 \<and>
    16 dvd unat (tag_of p - create_aligned memory sz) \<and>
    unat (p - create_aligned memory sz) mod 16 = 2 \<and>
    2 dvd unat p \<and> \<not> 4 dvd unat p"
proof -
  from mk_reach_inv [OF r] obtain F od where inv: "mk_inv memory sz s F od L {}" by blast
  from mk_alloc_inv(3) [OF inv al p]
  have t: "16 dvd unat (tag_of p)" and u: "unat p = unat (tag_of p) + 2" by simp_all
  from mk_reach_created [OF r] create_aligned_16
  have a: "16 dvd unat (create_aligned memory sz)" by blast
  from t have t0: "unat (tag_of p) mod 16 = 0" by simp
  have pm: "unat p mod 16 = 2" unfolding u using t0 by presburger
  have "unat (tag_of p - create_aligned memory sz) mod 16 = 0"
    using unat_diff_mod16 [OF a, of "tag_of p"] t0 by simp
  then have 1: "16 dvd unat (tag_of p - create_aligned memory sz)" by presburger
  have 2: "unat (p - create_aligned memory sz) mod 16 = 2"
    using unat_diff_mod16 [OF a, of p] pm by simp
  from pm have 3: "2 dvd unat p" and 4: "\<not> 4 dvd unat p" by presburger+
  from u 1 2 3 4 show ?thesis by blast
qed

lemma create_usable_unat:
  assumes ok: "mk_arena_ok memory sz"
  shows "unat (create_usable sz) = unat sz - 544"
proof -
  from ok have "544 \<le> unat sz" by (simp add: mk_arena_ok_def)
  then have "(544 :: size_t) \<le> sz" by (simp add: word_le_nat_alt)
  then show ?thesis by (simp add: create_usable_def create_off_eq unat_sub)
qed

lemma create_pad_small:
  assumes ok: "mk_arena_ok memory sz" and u64: "\<not> create_usable sz < 64"
  shows "\<not> create_usable sz \<le> create_align_pad memory sz"
proof -
  note ob = create_order_bounds [OF u64]
  have mo64: "create_order sz < 64" using ob(2) by simp
  have al: "create_aligned memory sz =
      (memory + create_off + mask (create_order sz)) AND NOT (mask (create_order sz))"
    by (simp add: create_aligned_def Let_def pow2_mask)
  from align_word(1) [OF mo64, of "memory + create_off", folded al, folded create_align_pad_def]
  have "unat (create_align_pad memory sz) < 2 ^ create_order sz" .
  with ob(3) show ?thesis by (simp add: word_le_nat_alt)
qed

lemma create_order_max:
  assumes ok: "mk_arena_ok memory sz" and lt: "create_order sz < 20"
  shows "unat sz - 544 < 2 ^ (create_order sz + 1)"
proof -
  from create_max_order_props [of 0 "create_usable sz"] lt
  have "\<not> pow2 (create_order sz + 1) \<le> create_usable sz" by (simp add: create_order_def)
  moreover have "unat (pow2 (create_order sz + 1)) = 2 ^ (create_order sz + 1)"
    using lt by (intro pow2_unat) simp
  ultimately show ?thesis
    by (simp add: word_le_nat_alt create_usable_unat [OF ok])
qed

lemma fl_spans_intro:
  assumes inv: "fl_inv memory sz s xs L" and f: "f \<in> set xs"
    and lo: "unat f \<le> lo" and hi: "hi \<le> fl_end s f"
  shows "fl_spans s lo hi"
proof -
  from inv have g: "geom 24 (unat memory + 24) (unat memory + unat sz) (fl_blocks xs L) (fl_bytes s)"
    by (simp add: fl_inv_def)
  have xB: "a \<in> fl_blocks xs L" if "a \<in> set xs" for a using that by (simp add: fl_blocks_def)
  have "g' = f" if g': "g' \<in> set xs" and i: "unat g' < hi" "lo < fl_end s g'" for g'
  proof -
    have "\<not> unat g' < unat f"
      using geom_order [OF g xB [OF g'] xB [OF f]] lo i(2) by (auto simp: fl_end_def)
    moreover have "\<not> unat f < unat g'"
      using geom_order [OF g xB [OF f] xB [OF g']] hi i(1) by (auto simp: fl_end_def)
    ultimately show ?thesis by (simp add: word_unat_eq_iff)
  qed
  with fl_inv_chain_facts(1) [OF inv] f lo hi show ?thesis
    unfolding fl_spans_def by blast
qed

lemma fl_free_pair:
  assumes inv: "fl_inv memory sz s xs L" and p1: "p1 \<in> L" and p2: "p2 \<in> L"
    and adj: "fl_end s (ptr_to_block p1) = unat (ptr_to_block p2)"
  shows "\<exists>s1 s2. fl_allocator_free s p1 = Some s1 \<and> fl_allocator_free s1 p2 = Some s2 \<and>
           fl_spans s2 (unat (ptr_to_block p1)) (fl_end s (ptr_to_block p2))"
    and "\<exists>s1 s2. fl_allocator_free s p2 = Some s1 \<and> fl_allocator_free s1 p1 = Some s2 \<and>
           fl_spans s2 (unat (ptr_to_block p1)) (fl_end s (ptr_to_block p2))"
proof -
  let ?b1 = "ptr_to_block p1" and ?b2 = "ptr_to_block p2"
  have B: "ptr_to_block p \<in> fl_blocks xs L" if "p \<in> L" for p
    using that by (simp add: fl_blocks_def)
  have pos1: "0 < fl_bytes s ?b1" using fl_block_facts(2) [OF inv B [OF p1]] by simp
  have pos2: "0 < fl_bytes s ?b2" using fl_block_facts(2) [OF inv B [OF p2]] by simp
  have b12: "unat ?b1 < unat ?b2" using adj pos1 by (simp add: fl_end_def)
  then have ne: "p1 \<noteq> p2" by auto
  show "\<exists>s1 s2. fl_allocator_free s p1 = Some s1 \<and> fl_allocator_free s1 p2 = Some s2 \<and>
           fl_spans s2 (unat ?b1) (fl_end s ?b2)"
  proof -
    from fl_free_spec [OF inv p1] obtain s1 xs1 f1 where
      fr1: "fl_allocator_free s p1 = Some s1" and inv1: "fl_inv memory sz s1 xs1 (L - {p1})"
      and f1: "f1 \<in> set xs1" "unat f1 \<le> unat ?b1" "fl_end s ?b1 \<le> fl_end s1 f1"
      and keep: "\<forall>q\<in>L - {p1}. fl_bytes s1 (ptr_to_block q) = fl_bytes s (ptr_to_block q)"
      by blast
    have p2': "p2 \<in> L - {p1}" using p2 ne by simp
    from inv1 have g1: "geom 24 (unat memory + 24) (unat memory + unat sz)
        (fl_blocks xs1 (L - {p1})) (fl_bytes s1)"
      by (simp add: fl_inv_def)
    have "unat f1 < unat ?b2" using f1(2) b12 by simp
    from geom_order [OF g1 _ _ this] f1(1) p2'
    have "fl_end s1 f1 \<le> unat ?b2" by (simp add: fl_blocks_def fl_end_def)
    with f1(3) adj have e1: "fl_end s1 f1 = unat ?b2" by simp
    from fl_free_spec [OF inv1 p2'] obtain s2 xs2 f2 where
      fr2: "fl_allocator_free s1 p2 = Some s2" and inv2: "fl_inv memory sz s2 xs2 (L - {p1} - {p2})"
      and f2: "f2 \<in> set xs2" "fl_end s1 ?b2 \<le> fl_end s2 f2"
      and prev: "\<forall>a\<in>set xs1. fl_end s1 a = unat ?b2 \<longrightarrow> f2 = a"
      by blast
    from prev f1(1) e1 have "f2 = f1" by blast
    moreover have "fl_end s1 ?b2 = fl_end s ?b2" using keep p2' by (simp add: fl_end_def)
    ultimately have "fl_spans s2 (unat ?b1) (fl_end s ?b2)"
      using f2 f1(2) by (intro fl_spans_intro [OF inv2, of f2]) simp_all
    with fr1 fr2 show ?thesis by blast
  qed
  show "\<exists>s1 s2. fl_allocator_free s p2 = Some s1 \<and> fl_allocator_free s1 p1 = Some s2 \<and>
           fl_spans s2 (unat ?b1) (fl_end s ?b2)"
  proof -
    from fl_free_spec [OF inv p2] obtain s1 xs1 f where
      fr1: "fl_allocator_free s p2 = Some s1" and inv1: "fl_inv memory sz s1 xs1 (L - {p2})"
      and f: "f \<in> set xs1" "unat f \<le> unat ?b2" "fl_end s ?b2 \<le> fl_end s1 f"
      and keep: "\<forall>q\<in>L - {p2}. fl_bytes s1 (ptr_to_block q) = fl_bytes s (ptr_to_block q)"
      by blast
    have p1': "p1 \<in> L - {p2}" using p1 ne by simp
    from inv1 have g1: "geom 24 (unat memory + 24) (unat memory + unat sz)
        (fl_blocks xs1 (L - {p2})) (fl_bytes s1)"
      and live1: "set xs1 \<inter> ptr_to_block ` (L - {p2}) = {}"
      by (simp_all add: fl_inv_def)
    have fB: "f \<in> fl_blocks xs1 (L - {p2})" using f(1) by (simp add: fl_blocks_def)
    have bB: "?b1 \<in> fl_blocks xs1 (L - {p2})" using p1' by (simp add: fl_blocks_def)
    have e1: "fl_end s1 ?b1 = unat ?b2" using keep p1' adj by (simp add: fl_end_def)
    have "f \<noteq> ?b1" using f(1) p1' live1 by auto
    then have "unat f \<noteq> unat ?b1" by (simp add: word_unat_eq_iff)
    moreover have "\<not> unat f < unat ?b1"
    proof
      assume "unat f < unat ?b1"
      from geom_order [OF g1 fB bB this] have "fl_end s1 f \<le> unat ?b1" by (simp add: fl_end_def)
      with f(3) b12 pos2 show False by (simp add: fl_end_def)
    qed
    ultimately have "unat ?b1 < unat f" by simp
    from geom_order [OF g1 bB fB this] e1 have "unat ?b2 \<le> unat f" by (simp add: fl_end_def)
    with f(2) have e: "fl_end s1 ?b1 = unat f" using e1 by simp
    from fl_free_spec [OF inv1 p1'] obtain s2 xs2 f2 where
      fr2: "fl_allocator_free s1 p1 = Some s2" and inv2: "fl_inv memory sz s2 xs2 (L - {p2} - {p1})"
      and f2: "f2 \<in> set xs2" "unat f2 \<le> unat ?b1"
      and nxt: "\<forall>c\<in>set xs1. fl_end s1 ?b1 = unat c \<longrightarrow> fl_end s1 c \<le> fl_end s2 f2"
      by blast
    from nxt f(1) e have "fl_end s1 f \<le> fl_end s2 f2" by blast
    with f(3) have "fl_end s ?b2 \<le> fl_end s2 f2" by simp
    with f2 have "fl_spans s2 (unat ?b1) (fl_end s ?b2)"
      by (intro fl_spans_intro [OF inv2, of f2]) simp_all
    with fr1 fr2 show ?thesis by blast
  qed
qed

lemma sum_merge:
  fixes f :: "'a \<Rightarrow> nat"
  assumes fin: "finite B" and x: "x \<in> B" and y: "y \<in> B" and xy: "x \<noteq> y"
  shows "sum (f(x := f x + f y)) (B - {y}) = sum f B"
proof -
  have fin': "finite (B - {y})" using fin by simp
  have x': "x \<in> B - {y}" using x xy by simp
  have "sum (f(x := f x + f y)) (B - {y}) =
      (f(x := f x + f y)) x + sum (f(x := f x + f y)) (B - {y} - {x})"
    by (rule sum.remove [OF fin' x'])
  also have "sum (f(x := f x + f y)) (B - {y} - {x}) = sum f (B - {y} - {x})"
    by (rule sum.cong) auto
  finally have 1: "sum (f(x := f x + f y)) (B - {y}) = f x + f y + sum f (B - {y} - {x})"
    by simp
  have "sum f B = f y + sum f (B - {y})" by (rule sum.remove [OF fin y])
  also have "sum f (B - {y}) = f x + sum f (B - {y} - {x})" by (rule sum.remove [OF fin' x'])
  finally show ?thesis using 1 by simp
qed

lemma sum_split:
  fixes f :: "'a \<Rightarrow> nat"
  assumes fin: "finite B" and x: "x \<in> B" and y: "y \<notin> B" and n: "n \<le> f x"
    and g: "g x = n" "g y = f x - n" "\<forall>b\<in>B - {x}. g b = f b"
  shows "sum g (insert y B) = sum f B"
proof -
  have "sum g (insert y B) = g y + sum g B" using fin y by simp
  also have "sum g B = g x + sum g (B - {x})" by (rule sum.remove [OF fin x])
  also have "sum g (B - {x}) = sum f (B - {x})" using g(3) by (intro sum.cong) auto
  finally have "sum g (insert y B) = f x + sum f (B - {x})" using g(1,2) n by simp
  also have "\<dots> = sum f B" by (rule sum.remove [OF fin x, symmetric])
  finally show ?thesis .
qed

lemma fl_blocks_finite: "finite L \<Longrightarrow> finite (fl_blocks xs L)"
  by (simp add: fl_blocks_def)

lemma fl_take_sum:
  assumes inv: "fl_inv memory sz s (as @ q # cs) L"
    and fit: "need \<le> blk_size s q" and need: "40 \<le> unat need" and fin: "finite L"
  defines "s' \<equiv> snd (fl_take s need (fl_link_after Head as) q)"
  defines "xs' \<equiv> as @ (if need + sizeof_block_header + 16 \<le> blk_size s q then [q + need] else []) @ cs"
  shows "sum (fl_bytes s') (fl_blocks xs' (insert (q + 24) L)) =
     sum (fl_bytes s) (fl_blocks (as @ q # cs) L)"
proof -
  let ?B = "fl_blocks (as @ q # cs) L"
  note t = fl_take_inv [OF inv fit need, folded s'_def xs'_def]
  have finB: "finite ?B" using fin by (rule fl_blocks_finite)
  have qB: "q \<in> ?B" by (simp add: fl_blocks_def)
  note c = fl_inv_chain_facts [OF inv]
  from inv have live: "set (as @ q # cs) \<inter> ptr_to_block ` L = {}" by (simp add: fl_inv_def)
  have rest: "fl_blocks (as @ cs) L = ?B - {q}"
    using c(2) live by (auto simp: fl_blocks_def)
  have same: "\<forall>b\<in>?B - {q}. fl_bytes s' b = fl_bytes s b"
    using t(6) by (simp add: rest fl_bytes_def)
  show ?thesis
  proof (cases "need + sizeof_block_header + 16 \<le> blk_size s q")
    case False
    then have B': "fl_blocks xs' (insert (q + 24) L) = ?B"
      by (auto simp: xs'_def fl_blocks_def)
    have "fl_bytes s' q = fl_bytes s q" using t(4) False by (simp add: fl_bytes_def)
    with same have "\<forall>b\<in>?B. fl_bytes s' b = fl_bytes s b" by auto
    then show ?thesis unfolding B' by (intro sum.cong) auto
  next
    case True
    then have xs': "xs' = as @ (q + need) # cs" by (simp add: xs'_def)
    have B': "fl_blocks xs' (insert (q + 24) L) = insert (q + need) ?B"
      by (auto simp: xs' fl_blocks_def)
    note c' = fl_inv_chain_facts [OF t(2)]
    from t(2) have live': "set xs' \<inter> ptr_to_block ` insert (q + 24) L = {}"
      by (simp add: fl_inv_def)
    have nB: "q + need \<notin> ?B"
      using c'(2) live' by (auto simp: xs' fl_blocks_def)
    have le: "unat need \<le> fl_bytes s q" using fit by (simp add: fl_bytes_def word_le_nat_alt)
    have g1: "fl_bytes s' q = unat need" using t(4) True by (simp add: fl_bytes_def)
    have g2: "fl_bytes s' (q + need) = fl_bytes s q - unat need"
      using t(5) [OF True] fit by (simp add: fl_bytes_def unat_sub)
    show ?thesis unfolding B'
      by (rule sum_split [OF finB qB nB le g1 g2 same])
  qed
qed

lemma fl_free_sum:
  assumes inv: "fl_inv memory sz s xs L" and ptr: "ptr \<in> L" and fin: "finite L"
  shows "\<exists>s' xs'. fl_allocator_free s ptr = Some s' \<and> fl_inv memory sz s' xs' (L - {ptr}) \<and>
     sum (fl_bytes s') (fl_blocks xs' (L - {ptr})) = sum (fl_bytes s) (fl_blocks xs L)"
proof -
  define b where "b = ptr_to_block ptr"
  define as where "as = takeWhile (\<lambda>a. a < b) xs"
  define cs where "cs = dropWhile (\<lambda>a. a < b) xs"
  define mn where "mn \<longleftrightarrow> cs \<noteq> [] \<and> fl_end s b = unat (hd cs)"
  define mp where "mp \<longleftrightarrow> as \<noteq> [] \<and> fl_end s (last as) = unat b"
  define by4 where
    "by4 = (if mn then (fl_bytes s)(b := fl_bytes s b + fl_bytes s (hd cs)) else fl_bytes s)"
  define xs' where "xs' = (if mp then as else as @ [b]) @ (if mn then tl cs else cs)"
  from fl_free_shape [OF inv ptr]
  obtain s' where fr: "fl_allocator_free s ptr = Some s'"
    and inv': "fl_inv memory sz s' xs' (L - {ptr})"
    and by': "fl_bytes s' = (if mp then by4(last as := by4 (last as) + by4 b) else by4)"
    unfolding xs'_def by4_def mp_def mn_def as_def cs_def b_def by blast
  let ?B = "fl_blocks xs L"
  define B1 where "B1 = (if mn then ?B - {hd cs} else ?B)"
  define B2 where "B2 = (if mp then B1 - {b} else B1)"
  have xs: "xs = as @ cs" by (simp add: as_def cs_def)
  note c = fl_inv_chain_facts [OF inv]
  from inv have live: "set xs \<inter> ptr_to_block ` L = {}" by (simp add: fl_inv_def)
  have finB: "finite ?B" using fin by (rule fl_blocks_finite)
  have bB: "b \<in> ?B" using ptr by (auto simp: fl_blocks_def b_def)
  have bx: "b \<notin> set xs" using live ptr by (auto simp: b_def)
  have Lb: "ptr_to_block ` (L - {ptr}) = ptr_to_block ` L - {b}"
    by (auto simp: b_def dest: ptr_to_block_inj)
  have hc: "hd cs \<in> set cs" "hd cs \<notin> set (tl cs)" "hd cs \<notin> set as"
    "set cs = insert (hd cs) (set (tl cs))" if "cs \<noteq> []"
    using that c(2) by (cases cs; auto simp: xs)+
  have la: "last as \<in> set as" if "as \<noteq> []" using that by simp
  have B': "fl_blocks xs' (L - {ptr}) = B2"
  proof -
    have "fl_blocks xs' (L - {ptr}) =
        (if mp then set as else insert b (set as)) \<union> (if mn then set (tl cs) else set cs) \<union>
        (ptr_to_block ` L - {b})"
      by (auto simp: fl_blocks_def xs'_def Lb)
    also have "\<dots> = B2"
      using bx hc live ptr by (auto simp: B2_def B1_def fl_blocks_def xs mn_def b_def)
    finally show ?thesis .
  qed
  have 1: "sum by4 B1 = sum (fl_bytes s) ?B"
  proof (cases mn)
    case True
    then have ne: "cs \<noteq> []" by (simp add: mn_def)
    have cB: "hd cs \<in> ?B" using hc(1) [OF ne] by (simp add: fl_blocks_def xs)
    have "b \<noteq> hd cs" using bx hc(1) [OF ne] xs by auto
    from sum_merge [OF finB bB cB this, of "fl_bytes s"] True show ?thesis
      by (simp add: by4_def B1_def)
  next
    case False
    then show ?thesis by (simp add: by4_def B1_def)
  qed
  have 2: "sum (fl_bytes s') B2 = sum by4 B1"
  proof (cases mp)
    case True
    then have ne: "as \<noteq> []" by (simp add: mp_def)
    have finB1: "finite B1" using finB by (simp add: B1_def)
    have aB: "last as \<in> B1"
      using la [OF ne] hc(3) by (auto simp: B1_def fl_blocks_def xs mn_def)
    have bB1: "b \<in> B1" using bB bx hc(1) xs by (auto simp: B1_def mn_def)
    have "last as \<noteq> b" using la [OF ne] bx xs by auto
    from sum_merge [OF finB1 aB bB1 this, of by4] True show ?thesis
      by (simp add: by' B2_def)
  next
    case False
    then show ?thesis by (simp add: by' B2_def)
  qed
  from fr inv' 1 2 show ?thesis unfolding B' [symmetric] by auto
qed

lemma fl_reach_sum:
  "fl_reach memory sz s L \<Longrightarrow>
   \<exists>xs. fl_inv memory sz s xs L \<and> finite L \<and>
     sum (fl_bytes s) (fl_blocks xs L) + 24 = unat sz"
proof (induction rule: fl_reach.induct)
  case (fl_reach_create m)
  have "fl_bytes (fl_allocator_create m memory sz) (memory + 24) = unat sz - 24"
  proof -
    from fl_reach_create have "(24 :: size_t) \<le> sz"
      by (simp add: fl_arena_ok_def word_le_nat_alt)
    then show ?thesis
      by (simp add: fl_bytes_def fl_allocator_create_def Let_def align_up_def
          sizeof_fl_Allocator_def alignof_block_header_def unat_sub)
  qed
  moreover have "24 \<le> unat sz" using fl_reach_create by (simp add: fl_arena_ok_def)
  ultimately have "sum (fl_bytes (fl_allocator_create m memory sz)) (fl_blocks [memory + 24] {}) + 24 =
      unat sz"
    by (simp add: fl_blocks_def)
  with fl_create_inv [OF fl_reach_create, of m] show ?case by blast
next
  case (fl_reach_alloc s L n p s')
  then obtain xs where inv: "fl_inv memory sz s xs L" and fin: "finite L"
    and sm: "sum (fl_bytes s) (fl_blocks xs L) + 24 = unat sz" by blast
  let ?need = "align_up n alignof_max_align_t + sizeof_block_header"
  have hit: "\<not> (n = 0 \<or> (\<forall>x\<in>set xs. \<not> ?need \<le> blk_size s x))"
  proof
    assume "n = 0 \<or> (\<forall>x\<in>set xs. \<not> ?need \<le> blk_size s x)"
    from fl_alloc_null [OF inv this] fl_reach_alloc.hyps(3,4) show False by simp
  qed
  then have n: "n \<noteq> 0" and "\<exists>x\<in>set xs. ?need \<le> blk_size s x" by auto
  from split_list_first_prop [OF this(2)]
  obtain as q cs where xs: "xs = as @ q # cs" and fit: "?need \<le> blk_size s q"
    and no: "\<forall>a\<in>set as. \<not> ?need \<le> blk_size s a"
    by blast
  note inv' = inv [unfolded xs]
  note nb = fl_need_bounds(3) [OF fl_reach_alloc.hyps(2) n]
  note t = fl_take_inv [OF inv' fit nb]
  from fl_alloc_hit [OF inv' n no fit] fl_reach_alloc.hyps(3)
  have r: "fl_take s ?need (fl_link_after Head as) q = (p, s')" by simp
  then have p: "p = q + 24" and s': "s' = snd (fl_take s ?need (fl_link_after Head as) q)"
    using t(1) by auto
  let ?xs' = "as @ (if ?need + sizeof_block_header + 16 \<le> blk_size s q then [q + ?need] else []) @ cs"
  have "sum (fl_bytes s') (fl_blocks ?xs' (insert p L)) + 24 = unat sz"
    using fl_take_sum [OF inv' fit nb fin] sm unfolding p s' xs by simp
  moreover have "fl_inv memory sz s' ?xs' (insert p L)" using t(2) unfolding p s' .
  moreover have "finite (insert p L)" using fin by simp
  ultimately show ?case by blast
next
  case (fl_reach_alloc_null s L n s')
  then obtain xs where inv: "fl_inv memory sz s xs L" and fin: "finite L"
    and sm: "sum (fl_bytes s) (fl_blocks xs L) + 24 = unat sz" by blast
  from fl_alloc_inv [OF inv fl_reach_alloc_null.hyps(2)] fl_reach_alloc_null.hyps(3)
  have "s' = s" by auto
  with inv fin sm show ?case by blast
next
  case (fl_reach_free s L p s')
  then obtain xs where inv: "fl_inv memory sz s xs L" and fin: "finite L"
    and sm: "sum (fl_bytes s) (fl_blocks xs L) + 24 = unat sz" by blast
  from fl_free_sum [OF inv fl_reach_free.hyps(2) fin] fl_reach_free.hyps(3) sm fin
  show ?case by auto
next
  case (fl_reach_free_null s L s')
  then show ?case by (simp add: fl_allocator_free_def)
qed

text \<open>
  Conservation for the free-list allocator: in every state reached by create, alloc and
  free calls, the sizes of the blocks of the free list, the sizes of the live blocks and
  the size of the descriptor add up to the size of the memory.
\<close>

lemma fl_reach_conserves:
  assumes "fl_reach memory sz s L"
  shows "\<exists>xs. chain (blk_next s) (free_list s) xs \<and>
     (\<Sum>b\<leftarrow>xs. unat (blk_size s b)) + (\<Sum>p\<in>L. unat (blk_size s (ptr_to_block p))) +
       unat sizeof_fl_Allocator = unat sz"
proof -
  from fl_reach_sum [OF assms] obtain xs where inv: "fl_inv memory sz s xs L"
    and fin: "finite L" and sm: "sum (fl_bytes s) (fl_blocks xs L) + 24 = unat sz" by blast
  note c = fl_inv_chain_facts [OF inv]
  from inv have live: "set xs \<inter> ptr_to_block ` L = {}" by (simp add: fl_inv_def)
  have "sum (fl_bytes s) (fl_blocks xs L) =
      sum (fl_bytes s) (set xs) + sum (fl_bytes s) (ptr_to_block ` L)"
    unfolding fl_blocks_def using fin live by (intro sum.union_disjoint) auto
  also have "sum (fl_bytes s) (set xs) = (\<Sum>b\<leftarrow>xs. fl_bytes s b)"
    using c(2) by (simp add: sum_list_distinct_conv_sum_set)
  also have "sum (fl_bytes s) (ptr_to_block ` L) = (\<Sum>p\<in>L. fl_bytes s (ptr_to_block p))"
    by (subst sum.reindex) (auto simp: inj_on_def dest: ptr_to_block_inj)
  finally show ?thesis using sm c(1)
    by (auto simp: fl_bytes_def [abs_def] sizeof_fl_Allocator_def)
qed

section \<open>Evaluation of the concrete arenas\<close>

lemmas fl_eval =
  fl_allocator_create_def fl_allocator_alloc_def fl_allocator_free_def fl_take_def
  fl_alloc_loop.simps fl_find_pos.simps fl_merge_prev.simps fl_merge_next_def fl_absorb_def
  split_block_def align_up_def sizeof_block_header_def alignof_block_header_def
  alignof_max_align_t_def sizeof_fl_Allocator_def ptr_to_block_def Let_def

lemma fl_demo_reach: "fl_reach 0x10000 4096 fl_demo {}"
  unfolding fl_demo_def by (rule fl_reach_create) (simp add: fl_arena_ok_def)


lemmas mk_eval =
  mk_allocator_create_def mk_allocator_alloc_def mk_allocator_free_def
  create_min_order_def create_max_order.simps create_seed.simps
  order_for_def order_for_loop.simps find_order.simps split_down.simps
  list_push_def list_pop_def list_remove_def list_remove_loop.simps scan_buddy.simps
  free_loop.simps buddy_addr_def pow2_def align_up_def
  sizeof_mk_Allocator_def sizeof_uint16_t_def Let_def mk_mem0_def

lemmas mk_demo_defs = mk_demo3_def mk_demo2_def mk_demo1_def mk_demo_def

lemmas mk_odd_defs =
  mk_odd9_def mk_odd8_def mk_odd7_def
  mk_odd6_def mk_odd5_def mk_odd4_def mk_odd3_def mk_odd2_def mk_odd1_def mk_odd_def

lemmas mk_skew_defs = mk_skew2_def mk_skew1_def mk_skew_def

lemmas mk_big_defs = mk_big2_def mk_big1_def mk_big_def

lemmas create_defs =
  create_aligned_def create_order_def create_usable_def create_off_def
  create_align_pad_def create_blocks_def

lemma mk_demo_create: "mk_allocator_create mk_mem0 0x10000 8192 = Some mk_demo"
proof -
  have "mk_allocator_create mk_mem0 0x10000 8192 \<noteq> None"
    by (simp add: mk_create_eq create_defs align_up_def sizeof_mk_Allocator_def pow2_def
        create_max_order.simps)
  then show ?thesis by (auto simp: mk_demo_def)
qed

lemma mk_demo_reach: "mk_reach 0x10000 8192 mk_demo {}"
  by (rule mk_reach_create [OF _ mk_demo_create]) (simp add: mk_arena_ok_def)

lemmas fl_demo_defs = fl_demo4_def fl_demo3_def fl_demo2_def fl_demo1_def fl_demo_def fl_mem0_def

lemma fl_demo1_alloc: "fl_allocator_alloc fl_demo 100 = Some (0x10030, snd fl_demo1)"
  by (simp add: fl_demo_defs fl_eval)

lemma fl_demo2_alloc: "fl_allocator_alloc (snd fl_demo1) 100 = Some (0x100B8, snd fl_demo2)"
  by (simp add: fl_demo_defs fl_eval)

lemma fl_demo2_reach: "fl_reach 0x10000 4096 (snd fl_demo2) {0x100B8, 0x10030}"
proof -
  have ok: "fl_size_ok 100" by (simp add: fl_size_ok_def)
  from fl_reach_alloc [OF fl_demo_reach ok fl_demo1_alloc]
  have "fl_reach 0x10000 4096 (snd fl_demo1) {0x10030}" by simp
  from fl_reach_alloc [OF this ok fl_demo2_alloc] show ?thesis by simp
qed

lemma mk_demo1_alloc: "mk_allocator_alloc mk_demo 20 = Some (0x11002, snd mk_demo1)"
  by (simp add: mk_demo_defs mk_eval)

lemma mk_demo2_alloc: "mk_allocator_alloc (snd mk_demo1) 20 = Some (0x11022, snd mk_demo2)"
  by (simp add: mk_demo_defs mk_eval)

lemma mk_demo3_alloc: "mk_allocator_alloc (snd mk_demo2) 20 = Some (0x11042, snd mk_demo3)"
  by (simp add: mk_demo_defs mk_eval)

lemma mk_demo2_reach: "mk_reach 0x10000 8192 (snd mk_demo2) {0x11022, 0x11002}"
proof -
  from mk_reach_alloc [OF mk_demo_reach mk_demo1_alloc]
  have "mk_reach 0x10000 8192 (snd mk_demo1) {0x11002}" by simp
  from mk_reach_alloc [OF this mk_demo2_alloc] show ?thesis by simp
qed

lemma mk_demo3_reach: "mk_reach 0x10000 8192 (snd mk_demo3) {0x11042, 0x11022, 0x11002}"
  using mk_reach_alloc [OF mk_demo2_reach mk_demo3_alloc] by simp

lemma fl_demo3_free: "fl_allocator_free (snd fl_demo2) (fst fl_demo1) = Some fl_demo3"
proof -
  have "fl_allocator_free (snd fl_demo2) (fst fl_demo1) \<noteq> None"
    by (simp add: fl_demo2_def fl_demo1_def fl_demo_def fl_mem0_def fl_eval)
  then show ?thesis by (auto simp: fl_demo3_def)
qed

lemma fl_demo4_free: "fl_allocator_free fl_demo3 (fst fl_demo2) = Some fl_demo4"
proof -
  have "fl_allocator_free fl_demo3 (fst fl_demo2) \<noteq> None"
    by (simp add: fl_demo3_def fl_demo2_def fl_demo1_def fl_demo_def fl_mem0_def fl_eval)
  then show ?thesis by (auto simp: fl_demo4_def)
qed

lemma fl_demo4_list:
  "fst fl_demo1 = 0x10030 \<and> fst fl_demo2 = 0x100B8 \<and>
   free_list fl_demo = 0x10018 \<and> blk_size fl_demo 0x10018 = 4072 \<and>
   blk_next fl_demo 0x10018 = 0 \<and>
   free_list fl_demo4 = 0x10018 \<and> blk_size fl_demo4 0x10018 = 4072 \<and>
   blk_next fl_demo4 0x10018 = 0"
  by (simp add: fl_demo_defs fl_eval)

section \<open>The properties of the specification\<close>

text \<open>
  C1. For both allocators and every sequence of create, alloc and free calls that respects
  the preconditions (only pointers returned by alloc on this allocator and not yet freed
  are freed; the memory and the request sizes are such that no size arithmetic overflows),
  the live regions returned by alloc lie inside the arena, do not overlap one another and
  do not overlap the allocator's metadata (the descriptor, the block headers or order tags,
  the nodes of the free lists).
\<close>

theorem live_regions_safe:
  assumes "fl_reach memory sz s L" and "mk_reach memory' sz' t M"
  shows "fl_safe memory sz s L \<and> mk_safe memory' sz' t M"
proof
  from fl_reach_inv [OF assms(1)] show "fl_safe memory sz s L"
    by (blast intro: fl_inv_safe)
  from mk_reach_inv [OF assms(2)] show "mk_safe memory' sz' t M"
    by (blast intro: mk_inv_safe)
qed

theorem live_regions_safe_witness:
  "fl_safe 0x10000 4096 (snd fl_demo2) {0x100B8, 0x10030} \<and>
   mk_safe 0x10000 8192 (snd mk_demo3) {0x11042, 0x11022, 0x11002}"
  by (rule live_regions_safe [OF fl_demo2_reach mk_demo3_reach])

text \<open>
  C7. Free-list \<^verbatim>\<open>allocator_alloc\<close>: the required size is
  \<open>align_up size max_alignment + header_size\<close>; the scan takes the first block of the free
  list, which is in address order, that is free and at least that large; the block is
  split exactly when the remainder can host another header plus 16 bytes, the tail taking
  the block's place in the list, and is otherwise consumed whole; the chosen block is
  unlinked, marked non-free, and the pointer returned is the address just after its header.
\<close>

theorem fl_alloc_first_fit:
  assumes reach: "fl_reach memory sz s L" and ok: "fl_size_ok n" and n: "n \<noteq> 0"
    and need: "need = align_up n alignof_max_align_t + sizeof_block_header"
    and ch: "chain (blk_next s) (free_list s) (as @ q # cs)"
    and no: "\<forall>a\<in>set as. \<not> fits s need a" and fit: "fits s need q"
  shows "sorted_wrt (<) (as @ q # cs) \<and>
    (\<exists>s'. fl_allocator_alloc s n = Some (q + sizeof_block_header, s') \<and>
      blk_free s' q = 0 \<and>
      (if sizeof_block_header + 16 \<le> blk_size s q - need
       then chain (blk_next s') (free_list s') (as @ (q + need) # cs) \<and>
            blk_size s' q = need \<and> blk_size s' (q + need) = blk_size s q - need \<and>
            blk_free s' (q + need) = 1
       else chain (blk_next s') (free_list s') (as @ cs) \<and> blk_size s' q = blk_size s q))"
proof -
  from fl_reach_inv [OF reach] obtain xs where inv0: "fl_inv memory sz s xs L" ..
  from fl_inv_chain_facts(1) [OF inv0] ch have "xs = as @ q # cs" by (rule chain_unique)
  with inv0 have inv: "fl_inv memory sz s (as @ q # cs) L" by simp
  have free: "\<forall>x\<in>set (as @ q # cs). blk_free s x \<noteq> 0"
    using inv by (simp add: fl_inv_def)
  from no free have no': "\<forall>a\<in>set as. \<not> need \<le> blk_size s a" by (simp add: fits_def)
  from fit have fit': "need \<le> blk_size s q" by (simp add: fits_def)
  have n40: "40 \<le> unat need" using fl_need_bounds(3) [OF ok n] need by simp
  let ?r = "fl_take s need (fl_link_after Head as) q"
  note t = fl_take_inv [OF inv fit' n40]
  have alloc: "fl_allocator_alloc s n = Some ?r"
    using fl_alloc_hit [OF inv n] no' fit' need by simp
  have qB: "q \<in> fl_blocks (as @ q # cs) L" by (simp add: fl_blocks_def)
  have cond: "sizeof_block_header + 16 \<le> blk_size s q - need \<longleftrightarrow>
      need + sizeof_block_header + 16 \<le> blk_size s q"
  proof -
    have le: "unat need \<le> unat (blk_size s q)" using fit' by (simp add: word_le_nat_alt)
    have "unat (blk_size s q) \<le> 2 ^ 63"
      using fl_block_facts(5) [OF inv qB] by (simp add: fl_bytes_def)
    with le have "unat need + unat (40 :: size_t) < 2 ^ LENGTH(64)" by simp
    then have l: "unat (need + 40) = unat need + unat (40 :: size_t)"
      by (rule unat_add_lem [THEN iffD1])
    have r: "unat (blk_size s q - need) = unat (blk_size s q) - unat need"
      using fit' by (simp add: unat_sub)
    have a: "need + sizeof_block_header + 16 = need + 40"
      and b: "sizeof_block_header + 16 = (40 :: size_t)"
      by (simp_all add: sizeof_block_header_def)
    show ?thesis
      unfolding a b word_le_nat_alt l r using le by (simp add: le_diff_conv2 add.commute)
  qed
  have "fst ?r = q + sizeof_block_header" using t(1) by (simp add: sizeof_block_header_def)
  moreover have "chain (blk_next (snd ?r)) (free_list (snd ?r))
      (as @ (if need + sizeof_block_header + 16 \<le> blk_size s q then [q + need] else []) @ cs)"
    using fl_inv_chain_facts(1) [OF t(2)] .
  ultimately have "fl_allocator_alloc s n = Some (q + sizeof_block_header, snd ?r) \<and>
      blk_free (snd ?r) q = 0 \<and>
      (if sizeof_block_header + 16 \<le> blk_size s q - need
       then chain (blk_next (snd ?r)) (free_list (snd ?r)) (as @ (q + need) # cs) \<and>
            blk_size (snd ?r) q = need \<and> blk_size (snd ?r) (q + need) = blk_size s q - need \<and>
            blk_free (snd ?r) (q + need) = 1
       else chain (blk_next (snd ?r)) (free_list (snd ?r)) (as @ cs) \<and>
            blk_size (snd ?r) q = blk_size s q)"
    using alloc t(3,4,5) cond by (cases ?r) auto
  then show ?thesis using fl_inv_chain_facts(4) [OF inv] by blast
qed

theorem fl_alloc_first_fit_witness:
  "\<exists>s'. fl_allocator_alloc fl_demo 100 = Some (0x10030, s') \<and>
     blk_free s' 0x10018 = 0 \<and> chain (blk_next s') (free_list s') [0x100A0] \<and>
     blk_size s' 0x10018 = 136 \<and> blk_size s' 0x100A0 = 3936 \<and> blk_free s' 0x100A0 = 1"
proof -
  have "fl_size_ok 100" by (simp add: fl_size_ok_def)
  moreover have "(136 :: size_t) = align_up 100 alignof_max_align_t + sizeof_block_header"
    by (simp add: align_up_def alignof_max_align_t_def sizeof_block_header_def)
  moreover have "chain (blk_next fl_demo) (free_list fl_demo) ([] @ 0x10018 # [])"
    by (simp add: fl_demo_def fl_mem0_def fl_eval)
  moreover have "fits fl_demo 136 0x10018"
    by (simp add: fits_def fl_demo_def fl_mem0_def fl_eval)
  ultimately show ?thesis
    using fl_alloc_first_fit [OF fl_demo_reach, of 100 136 "[]" "0x10018" "[]"]
    by (simp add: sizeof_block_header_def fl_demo_def fl_mem0_def fl_eval)
qed

text \<open>
  C2. Conservation: between calls, the sizes of the free blocks, the sizes of the live
  blocks and the fixed overhead add up to the arena size. The free-list allocator keeps
  this (\<open>fl_reach_conserves\<close>); the buddy allocator's \<^verbatim>\<open>allocator_free\<close> breaks it. Over 4 MiB at \<open>0x200000\<close> the arena holds three free
  blocks of order 20, at \<open>0x300000\<close>, \<open>0x400000\<close> and \<open>0x500000\<close>. A request of 1000000 bytes
  takes the block at \<open>0x500000\<close>; freeing it at once finds the block at \<open>0x400000\<close> on the
  order-20 list, unlinks it, and puts back a single order-20 block: with no live block
  left, only two of the three top blocks are free, and no smaller block is.
\<close>

theorem mk_free_loses_top_block:
  "max_order mk_big = 20 \<and>
   chain (node_next mk_big) (free_lists mk_big 20) [0x500000, 0x400000, 0x300000] \<and>
   fst mk_big1 = 0x500002 \<and>
   list_all (\<lambda>k. free_lists mk_big2 k = 0) [4..<20] \<and>
   chain (node_next mk_big2) (free_lists mk_big2 20) [0x400000, 0x300000]"
  by (simp add: mk_big_defs mk_eval)

text \<open>
  C4. Buddy alignment: every block of order \<open>k\<close>, returned or held free, starts at an offset
  from the aligned arena base that is a multiple of \<open>2^k\<close>. The code breaks this when the
  caller's memory is less aligned than the top block. Over \<open>0x8000\<close> bytes at \<open>0x11000\<close> the
  aligned base is \<open>0x14000\<close>. Three requests of 4094 bytes return the order-12 blocks at
  \<open>0x14000\<close>, \<open>0x15000\<close> and \<open>0x16000\<close>; after the third and then the second are freed, the
  order-13 free list holds a block at \<open>0x15000\<close>, whose offset \<open>0x1000\<close> is no multiple of
  \<open>2^13\<close>.
\<close>

theorem mk_free_merges_misaligned:
  "max_order mk_odd = 14 \<and> create_aligned 0x11000 0x8000 = 0x14000 \<and>
   fst mk_odd1 = 0x14002 \<and> fst mk_odd2 = 0x15002 \<and> fst mk_odd3 = 0x16002 \<and>
   chain (node_next mk_odd5) (free_lists mk_odd5 13) [0x15000] \<and>
   \<not> 2 ^ 13 dvd unat (0x15000 - create_aligned 0x11000 0x8000)"
  by (simp add: mk_odd_defs mk_eval create_defs)

text \<open>
  C8. For both allocators, when \<^verbatim>\<open>allocator_alloc\<close> returns \<^verbatim>\<open>NULL\<close> the memory is exactly
  as it was before the call: a failed request splits nothing and changes nothing.
\<close>

theorem alloc_failure_keeps_state:
  assumes fl: "fl_reach memory sz s L" and mk: "mk_reach memory' sz' t M"
  shows "(fl_allocator_alloc s n = Some (0, s') \<longrightarrow> s' = s) \<and>
         (mk_allocator_alloc t n' = Some (0, t') \<longrightarrow> t' = t)"
proof
  from fl_reach_inv [OF fl] obtain xs where inv: "fl_inv memory sz s xs L" ..
  let ?need = "align_up n alignof_max_align_t + sizeof_block_header"
  show "fl_allocator_alloc s n = Some (0, s') \<longrightarrow> s' = s"
  proof
    assume al: "fl_allocator_alloc s n = Some (0, s')"
    show "s' = s"
    proof (cases "n = 0 \<or> (\<forall>x\<in>set xs. \<not> ?need \<le> blk_size s x)")
      case True
      from fl_alloc_null [OF inv True] al show ?thesis by simp
    next
      case False
      then have n: "n \<noteq> 0" and "\<exists>x\<in>set xs. ?need \<le> blk_size s x" by auto
      from split_list_first_prop [OF this(2)]
      obtain as q cs where xs: "xs = as @ q # cs" and fit: "?need \<le> blk_size s q"
        and no: "\<forall>a\<in>set as. \<not> ?need \<le> blk_size s a"
        by blast
      note inv' = inv [unfolded xs]
      have "q + 24 \<noteq> 0"
        using fl_block_facts(8) [OF inv', of q] by (simp add: fl_blocks_def)
      moreover have "fst (fl_take s ?need (fl_link_after Head as) q) = q + 24"
        by (simp add: fl_take_def Let_def sizeof_block_header_def)
      ultimately show ?thesis
        using fl_alloc_hit [OF inv' n no fit] al by (metis fst_conv option.inject)
    qed
  qed
  from mk_reach_inv [OF mk] obtain F od where minv: "mk_inv memory' sz' t F od M {}" by blast
  show "mk_allocator_alloc t n' = Some (0, t') \<longrightarrow> t' = t"
    using mk_alloc_inv(2) [OF minv] by blast
qed

theorem alloc_failure_keeps_state_witness:
  "fl_allocator_alloc fl_demo 5000 = Some (0, fl_demo) \<and>
   mk_allocator_alloc mk_demo 5000 = Some (0, mk_demo)"
proof -
  obtain p s' where a: "fl_allocator_alloc fl_demo 5000 = Some (p, s')"
    by (cases "fl_allocator_alloc fl_demo 5000")
      (auto simp: fl_demo_def fl_mem0_def fl_eval)
  have "fst (the (fl_allocator_alloc fl_demo 5000)) = 0"
    by (simp add: fl_demo_def fl_mem0_def fl_eval)
  with a have p: "p = 0" by simp
  obtain q t' where b: "mk_allocator_alloc mk_demo 5000 = Some (q, t')"
    by (cases "mk_allocator_alloc mk_demo 5000")
      (auto simp: mk_demo_def mk_eval)
  have "fst (the (mk_allocator_alloc mk_demo 5000)) = 0"
    by (simp add: mk_demo_def mk_eval)
  with b have q: "q = 0" by simp
  from alloc_failure_keeps_state [OF fl_demo_reach mk_demo_reach, of 5000 s' 5000 t'] a b p q
  show ?thesis by simp
qed



text \<open>
  C10. Every pointer returned by the buddy \<^verbatim>\<open>allocator_alloc\<close> is two bytes past the start
  of a block of some order \<open>k\<close> that is aligned to \<open>2^k\<close> from the aligned arena base. The
  code breaks the alignment to \<open>2^k\<close>. Over \<open>0x8000\<close> bytes at \<open>0x11000\<close> the aligned base
  is \<open>0x14000\<close>; three requests of 4094 bytes are served, the third and then the second
  are freed, and \<^verbatim>\<open>allocator_free\<close>, taking offsets from the caller's memory, merges the
  blocks at \<open>0x15000\<close> and \<open>0x16000\<close>. A request of 8190 bytes then returns \<open>0x15002\<close> with
  the order tag 13: its block starts \<open>0x1000\<close> past the aligned base, which is no multiple
  of \<open>2^13\<close>, and \<open>0x15000\<close> itself is no multiple of \<open>2^13\<close>. Only the alignment to 16 is
  kept (\<open>mk_alloc_pointer_offset\<close>).
\<close>

theorem mk_alloc_block_misaligned:
  "create_aligned 0x11000 0x8000 = 0x14000 \<and>
   fst mk_odd6 = 0x15002 \<and>
   hdr (snd mk_odd6) (tag_of (fst mk_odd6)) = 13 \<and>
   \<not> 2 ^ 13 dvd unat (tag_of (fst mk_odd6) - create_aligned 0x11000 0x8000) \<and>
   \<not> 2 ^ 13 dvd unat (tag_of (fst mk_odd6))"
  by (simp add: mk_odd_defs mk_eval create_defs tag_of_def)

text \<open>
  C5. Buddy \<^verbatim>\<open>allocator_create\<close>, for memory that holds the descriptor (\<open>544 \<le> size\<close>) and
  does not wrap around the address space. As specified: \<^verbatim>\<open>min_order\<close> is 4;
  \<^verbatim>\<open>max_order\<close> is the largest order up to 20 with \<open>2^max_order\<close> at most the usable size
  \<open>size - 544\<close>; the arena start is the least multiple of \<open>2^max_order\<close> from
  \<open>memory + 544\<close> on; the top-order free list holds the blocks
  \<open>aligned + j * 2^max_order\<close> for every \<open>j\<close> below the number of such blocks that fit in
  what is left after the padding, and every other list is empty. Other than specified:
  \<^verbatim>\<open>allocator_create\<close> fails if and only if the usable size before the padding is below
  64 bytes (\<open>size < 608\<close>); neither the padding nor \<^verbatim>\<open>max_order < min_order\<close> makes it fail.
\<close>

theorem mk_create_spec:
  assumes ok: "mk_arena_ok memory sz"
  shows "(mk_allocator_create m memory sz = None \<longleftrightarrow> unat sz - 544 < 64) \<and>
    (\<forall>s. mk_allocator_create m memory sz = Some s \<longrightarrow>
       min_order s = 4 \<and> max_order s \<le> 20 \<and> 2 ^ max_order s \<le> unat sz - 544 \<and>
       (max_order s < 20 \<longrightarrow> unat sz - 544 < 2 ^ (max_order s + 1)) \<and>
       2 ^ max_order s dvd unat (create_aligned memory sz) \<and>
       unat (create_aligned memory sz) =
         unat memory + 544 + unat (create_align_pad memory sz) \<and>
       unat (create_align_pad memory sz) < 2 ^ max_order s \<and>
       unat (create_align_pad memory sz) < unat sz - 544 \<and>
       chain (node_next s) (free_lists s (max_order s))
         (seed_list (create_aligned memory sz) (max_order s)
            ((unat sz - 544 - unat (create_align_pad memory sz)) div 2 ^ max_order s)) \<and>
       (\<forall>j < (unat sz - 544 - unat (create_align_pad memory sz)) div 2 ^ max_order s.
          unat (seed_block (create_aligned memory sz) (max_order s) j) =
            unat (create_aligned memory sz) + j * 2 ^ max_order s) \<and>
       (\<forall>k<64. k \<noteq> max_order s \<longrightarrow> free_lists s k = 0))"
proof (intro conjI allI impI)
  note us = create_usable_unat [OF ok]
  have u: "create_usable sz < 64 \<longleftrightarrow> unat sz - 544 < 64"
    by (simp add: word_less_nat_alt us)
  show "mk_allocator_create m memory sz = None \<longleftrightarrow> unat sz - 544 < 64"
    using create_pad_small [OF ok] by (auto simp: mk_create_eq u)
  fix s assume cr: "mk_allocator_create m memory sz = Some s"
  then have u64: "\<not> create_usable sz < 64"
    and pad: "\<not> create_usable sz \<le> create_align_pad memory sz"
    by (auto simp: mk_create_eq split: if_splits)
  note ob = create_order_bounds [OF u64]
  note cg = create_geometry [OF ok u64 pad]
  note ci = mk_create_inv [OF ok cr]
  have mo: "max_order s = create_order sz" by (rule ci(2))
  from mk_invD(3) [OF ci(1)] show "min_order s = 4" .
  show "max_order s \<le> 20" using ob(2) by (simp add: mo)
  show "2 ^ max_order s \<le> unat sz - 544" using ob(3) by (simp add: mo us)
  show "unat sz - 544 < 2 ^ (max_order s + 1)" if "max_order s < 20"
    using create_order_max [OF ok] that by (simp add: mo)
  show "2 ^ max_order s dvd unat (create_aligned memory sz)" using cg(2) by (simp add: mo)
  show "unat (create_aligned memory sz) = unat memory + 544 + unat (create_align_pad memory sz)"
    by (rule cg(6))
  show "unat (create_align_pad memory sz) < 2 ^ max_order s" using cg(5) by (simp add: mo)
  show "unat (create_align_pad memory sz) < unat sz - 544"
    using pad by (simp add: word_le_nat_alt us)
  have "chain (node_next s) (free_lists s (create_order sz))
      (seed_list (create_aligned memory sz) (create_order sz) (unat (create_blocks memory sz)))"
    using mk_inv_chain(1) [OF ci(1), of "create_order sz"] by (simp add: mo)
  then show "chain (node_next s) (free_lists s (max_order s))
      (seed_list (create_aligned memory sz) (max_order s)
         ((unat sz - 544 - unat (create_align_pad memory sz)) div 2 ^ max_order s))"
    by (simp add: mo cg(7))
  show "unat (seed_block (create_aligned memory sz) (max_order s) j) =
      unat (create_aligned memory sz) + j * 2 ^ max_order s"
    if "j < (unat sz - 544 - unat (create_align_pad memory sz)) div 2 ^ max_order s" for j
    using cg(4) that by (simp add: mo cg(7))
  show "free_lists s k = 0" if "k < 64" "k \<noteq> max_order s" for k
    using ci(3) that by (simp add: mo)
qed

theorem mk_create_spec_witness:
  "mk_allocator_create mk_mem0 0x10000 8192 = Some mk_demo \<and>
   min_order mk_demo = 4 \<and> max_order mk_demo = 12 \<and>
   create_aligned 0x10000 8192 = 0x11000 \<and> create_align_pad 0x10000 8192 = 0xDE0 \<and>
   chain (node_next mk_demo) (free_lists mk_demo 12) [0x11000] \<and>
   free_lists mk_demo 11 = 0 \<and> free_lists mk_demo 13 = 0"
proof -
  have ok: "mk_arena_ok 0x10000 8192" by (simp add: mk_arena_ok_def)
  have mo: "max_order mk_demo = 12" by (simp add: mk_demo_def mk_eval)
  have al: "create_aligned 0x10000 8192 = 0x11000" "create_align_pad 0x10000 8192 = 0xDE0"
    by (simp_all add: create_defs mk_eval)
  from mk_create_spec [OF ok, of mk_mem0] mk_demo_create
  have "min_order mk_demo = 4 \<and>
     chain (node_next mk_demo) (free_lists mk_demo 12) (seed_list 0x11000 12 1) \<and>
     (\<forall>k<64. k \<noteq> 12 \<longrightarrow> free_lists mk_demo k = 0)"
    by (simp add: mo al)
  then show ?thesis
    using mk_demo_create mo al by (simp add: seed_list_def seed_block_def)
qed

theorem mk_create_fails_below_64:
  "mk_allocator_create mk_mem0 0x10000 594 = None \<and>
   create_order 594 = 5 \<and> create_align_pad 0x10000 594 = 0 \<and>
   unat (create_usable 594 - create_align_pad 0x10000 594) = 50 \<and>
   mk_allocator_create mk_mem0 0x10028 608 \<noteq> None \<and>
   max_order (the (mk_allocator_create mk_mem0 0x10028 608)) = 6 \<and>
   unat (create_usable 608 - create_align_pad 0x10028 608) = 8 \<and>
   free_lists (the (mk_allocator_create mk_mem0 0x10028 608)) 6 = 0"
  by (simp add: mk_eval create_defs)

text \<open>
  C6. Free-list coalescing. In every state reached by create, alloc and free calls, when
  the blocks of two live pointers are adjacent in memory (the first ends where the second
  starts), freeing the two, in either order, succeeds and leaves one block of the free
  list that covers both, from the start of the first block to the end of the second; no
  other block of the free list holds any of these addresses. In the arena of 4096 bytes,
  two requests of 100 bytes return \<open>0x10030\<close> and \<open>0x100B8\<close>; after the first and then the
  second are freed, the free list is again the one block at \<open>0x10018\<close> of 4072 bytes that
  create had made.
\<close>

theorem fl_free_coalesces:
  assumes r: "fl_reach memory sz s L" and p1: "p1 \<in> L" and p2: "p2 \<in> L"
    and adj: "fl_end s (ptr_to_block p1) = unat (ptr_to_block p2)"
  shows "(\<exists>s1 s2. fl_allocator_free s p1 = Some s1 \<and> fl_allocator_free s1 p2 = Some s2 \<and>
            fl_spans s2 (unat (ptr_to_block p1)) (fl_end s (ptr_to_block p2))) \<and>
         (\<exists>s1 s2. fl_allocator_free s p2 = Some s1 \<and> fl_allocator_free s1 p1 = Some s2 \<and>
            fl_spans s2 (unat (ptr_to_block p1)) (fl_end s (ptr_to_block p2))) \<and>
         (fst fl_demo1 = 0x10030 \<and> fst fl_demo2 = 0x100B8 \<and>
          fl_allocator_free (snd fl_demo2) (fst fl_demo1) = Some fl_demo3 \<and>
          fl_allocator_free fl_demo3 (fst fl_demo2) = Some fl_demo4 \<and>
          free_list fl_demo = 0x10018 \<and> blk_size fl_demo 0x10018 = 4072 \<and>
          blk_next fl_demo 0x10018 = 0 \<and>
          free_list fl_demo4 = 0x10018 \<and> blk_size fl_demo4 0x10018 = 4072 \<and>
          blk_next fl_demo4 0x10018 = 0)"
proof -
  from fl_reach_inv [OF r] obtain xs where inv: "fl_inv memory sz s xs L" by blast
  from fl_free_pair [OF inv p1 p2 adj] fl_demo3_free fl_demo4_free fl_demo4_list
  show ?thesis by simp
qed

theorem fl_free_coalesces_witness:
  "(\<exists>s1 s2. fl_allocator_free (snd fl_demo2) 0x10030 = Some s1 \<and>
      fl_allocator_free s1 0x100B8 = Some s2 \<and> fl_spans s2 0x10018 0x10128) \<and>
   (\<exists>s1 s2. fl_allocator_free (snd fl_demo2) 0x100B8 = Some s1 \<and>
      fl_allocator_free s1 0x10030 = Some s2 \<and> fl_spans s2 0x10018 0x10128)"
proof -
  have b: "unat (ptr_to_block 0x10030) = 0x10018"
    by (simp add: ptr_to_block_def sizeof_block_header_def)
  have e: "fl_end (snd fl_demo2) (ptr_to_block 0x100B8) = 0x10128"
    by (simp add: fl_end_def fl_bytes_def ptr_to_block_def sizeof_block_header_def
        fl_demo_defs fl_eval)
  have adj: "fl_end (snd fl_demo2) (ptr_to_block 0x10030) = unat (ptr_to_block 0x100B8)"
    by (simp add: fl_end_def fl_bytes_def ptr_to_block_def sizeof_block_header_def
        fl_demo_defs fl_eval)
  from fl_free_coalesces [OF fl_demo2_reach _ _ adj] show ?thesis
    unfolding b e by simp
qed

text \<open>
  C3. Buddy \<^verbatim>\<open>allocator_free\<close>: the buddy of a block of order \<open>k\<close> is at the block's offset
  from the arena base with bit \<open>k\<close> flipped; freeing a block and its buddy, in either order,
  leaves one free block of order \<open>k + 1\<close>; with \<^verbatim>\<open>max_order\<close> 12 and \<^verbatim>\<open>min_order\<close> 4, a
  request of 20 bytes returns a block of order 5, and freeing it at once leaves one free
  block of order 12. The code breaks this, since \<^verbatim>\<open>allocator_free\<close> takes the offset from
  \<^verbatim>\<open>A->base\<close>, the start of the caller's memory, and not from the aligned arena start.

  Over \<open>0x8000\<close> bytes at \<open>0x11000\<close> the arena starts at \<open>0x14000\<close>. Three requests of 4094
  bytes return the blocks of order 12 at \<open>0x14000\<close>, \<open>0x15000\<close> and \<open>0x16000\<close>; the first two
  are the halves of the block of order 13 at \<open>0x14000\<close>, each the other's buddy from the
  arena start. \<^verbatim>\<open>allocator_free\<close> looks for the buddy of \<open>0x14000\<close> at \<open>0x13000\<close> and for
  that of \<open>0x15000\<close> at \<open>0x16000\<close>: after the two are freed, in either order, both are on
  the free list of order 12 and there is no free block of order 13 or 14.

  Over 8192 bytes at \<open>0x11800\<close> (\<^verbatim>\<open>min_order\<close> 4, \<^verbatim>\<open>max_order\<close> 12, one block of order 12
  at \<open>0x12000\<close>) a request of 20 bytes returns \<open>0x12002\<close> with the order tag 5. Freeing it
  at once leaves two free blocks of order 11, at \<open>0x12000\<close> and \<open>0x12800\<close>, and no free
  block of order 12.
\<close>

theorem mk_free_misses_buddy:
  "create_aligned 0x11000 0x8000 = 0x14000 \<and> max_order mk_odd = 14 \<and>
   fst mk_odd1 = 0x14002 \<and> fst mk_odd2 = 0x15002 \<and> fst mk_odd3 = 0x16002 \<and>
   hdr (snd mk_odd3) 0x14000 = 12 \<and> hdr (snd mk_odd3) 0x15000 = 12 \<and>
   create_aligned 0x11000 0x8000 + ((0x14000 - create_aligned 0x11000 0x8000) XOR 2 ^ 12) =
     0x15000 \<and>
   buddy_addr (snd mk_odd3) 0x14000 12 = 0x13000 \<and>
   buddy_addr (snd mk_odd3) 0x15000 12 = 0x16000 \<and>
   chain (node_next (snd mk_odd3)) (free_lists (snd mk_odd3) 12) [0x17000] \<and>
   free_lists (snd mk_odd3) 13 = 0 \<and>
   chain (node_next mk_odd8) (free_lists mk_odd8 12) [0x15000, 0x14000, 0x17000] \<and>
   free_lists mk_odd8 13 = 0 \<and> free_lists mk_odd8 14 = 0 \<and>
   chain (node_next mk_odd9) (free_lists mk_odd9 12) [0x14000, 0x15000, 0x17000] \<and>
   free_lists mk_odd9 13 = 0 \<and> free_lists mk_odd9 14 = 0 \<and>
   min_order mk_skew = 4 \<and> max_order mk_skew = 12 \<and>
   chain (node_next mk_skew) (free_lists mk_skew 12) [0x12000] \<and>
   fst mk_skew1 = 0x12002 \<and> hdr (snd mk_skew1) 0x12000 = 5 \<and>
   chain (node_next mk_skew2) (free_lists mk_skew2 11) [0x12000, 0x12800] \<and>
   free_lists mk_skew2 12 = 0 \<and>
   list_all (\<lambda>j. free_lists mk_skew2 j = 0) [4..<11]"
  by (simp add: mk_odd_defs mk_skew_defs mk_eval create_defs)


end
